theory Spec2Isabelle
  imports Main "HOL-Library.Signed_Division" "HOL-Library.Monad_Syntax"
begin

section \<open>Constants of SudokuSolver.cpp\<close>

text \<open>
  The C++ constants. Row and column indices, loop counters and cell values are C++
  \<open>int\<close>. In a run of \<open>solve\<close> the only arithmetic on them is \<open>c++\<close>, \<open>c--\<close>, \<open>r++\<close>, \<open>r--\<close>
  and \<open>i++\<close> on values between \<open>-1\<close> and \<open>10\<close>, and the sub-block bounds computed from
  indices between \<open>0\<close> and \<open>8\<close>; cell values are only compared. No operation can
  overflow, so \<open>int\<close> models them exactly.
\<close>

abbreviation (input) PUZZLE_SIZE :: int where "PUZZLE_SIZE \<equiv> 9"
abbreviation (input) SUBGRID_SIZE :: int where "SUBGRID_SIZE \<equiv> 3"
abbreviation (input) UNKOWN_VALUE :: int where "UNKOWN_VALUE \<equiv> 0"

section \<open>The grid\<close>

text \<open>
  Modelled from the spec: the class \<open>Grid<int>\<close> of \<open>grid.h\<close>, which is not among the
  sources. The spec describes it as a flat array of integers addressed by (row, col), of
  dimension N = 9 (\<open>main\<close> constructs it as \<open>Grid<int> puzzle(PUZZLE_SIZE, PUZZLE_SIZE)\<close>),
  with \<open>inBounds(r, c)\<close> returning whether \<open>0 \<le> r < N\<close> and \<open>0 \<le> c < N\<close>, and with
  element access valid only in bounds: an access out of range is an error, the value
  \<open>None\<close> here.
\<close>

type_synonym grid = "int list"

text \<open>
  Modelled from the spec: the grid of \<open>main\<close> has N * N = 81 cells, stored row by row.
\<close>

definition grid9 :: "grid \<Rightarrow> bool" where
  "grid9 puzzle \<longleftrightarrow> length puzzle = 81"

text \<open>
  Modelled from the spec: \<open>Grid::inBounds\<close>, which is not among the sources; it returns
  whether \<open>0 \<le> r < N\<close> and \<open>0 \<le> c < N\<close>.
\<close>

definition inBounds :: "grid \<Rightarrow> int \<Rightarrow> int \<Rightarrow> bool" where
  "inBounds puzzle r c \<longleftrightarrow> 0 \<le> r \<and> r < PUZZLE_SIZE \<and> 0 \<le> c \<and> c < PUZZLE_SIZE"

text \<open>
  Modelled from the spec: reading \<open>puzzle[r][c]\<close> through \<open>Grid::operator[]\<close>, which is not
  among the sources; valid only in bounds, an error otherwise.
\<close>

definition get :: "grid \<Rightarrow> int \<Rightarrow> int \<Rightarrow> int option" where
  "get puzzle r c =
     (if inBounds puzzle r c then Some (puzzle ! nat (r * PUZZLE_SIZE + c)) else None)"

text \<open>
  Modelled from the spec: the assignment \<open>puzzle[r][c] = v\<close> through \<open>Grid::operator[]\<close>,
  which is not among the sources; valid only in bounds, an error otherwise.
\<close>

definition set_at :: "grid \<Rightarrow> int \<Rightarrow> int \<Rightarrow> int \<Rightarrow> grid option" where
  "set_at puzzle r c v =
     (if inBounds puzzle r c then Some (puzzle[nat (r * PUZZLE_SIZE + c) := v]) else None)"

section \<open>Positions\<close>

definition nextPos :: "int \<times> int \<Rightarrow> int \<times> int" where
  "nextPos p = (case p of (r, c) \<Rightarrow>
     (if c + 1 = PUZZLE_SIZE then (r + 1, 0) else (r, c + 1)))"

definition prevPos :: "int \<times> int \<Rightarrow> int \<times> int" where
  "prevPos p = (case p of (r, c) \<Rightarrow>
     (if c - 1 = -1 then (r - 1, PUZZLE_SIZE - 1) else (r, c - 1)))"

section \<open>The constraint checks\<close>

text \<open>\<open>isDuplRow\<close>: the loop \<open>for (i = 0; i < PUZZLE_SIZE; i++)\<close>, entered at \<open>i\<close>.\<close>

function isDuplRow_loop :: "grid \<Rightarrow> int \<Rightarrow> int \<Rightarrow> int \<Rightarrow> bool option" where
  "isDuplRow_loop puzzle r c i =
     (if i < PUZZLE_SIZE then do {
        a \<leftarrow> get puzzle r i;
        b \<leftarrow> get puzzle r c;
        if a = b \<and> i \<noteq> c then Some True
        else isDuplRow_loop puzzle r c (i + 1) }
      else Some False)"
  by pat_completeness auto
termination
  by (relation "measure (\<lambda>(puzzle, r, c, i). nat (PUZZLE_SIZE - i))") auto

definition isDuplRow :: "grid \<Rightarrow> int \<Rightarrow> int \<Rightarrow> bool option" where
  "isDuplRow puzzle r c = isDuplRow_loop puzzle r c 0"

text \<open>\<open>isDuplCol\<close>: the same loop down the column.\<close>

function isDuplCol_loop :: "grid \<Rightarrow> int \<Rightarrow> int \<Rightarrow> int \<Rightarrow> bool option" where
  "isDuplCol_loop puzzle r c i =
     (if i < PUZZLE_SIZE then do {
        a \<leftarrow> get puzzle i c;
        b \<leftarrow> get puzzle r c;
        if a = b \<and> i \<noteq> r then Some True
        else isDuplCol_loop puzzle r c (i + 1) }
      else Some False)"
  by pat_completeness auto
termination
  by (relation "measure (\<lambda>(puzzle, r, c, i). nat (PUZZLE_SIZE - i))") auto

definition isDuplCol :: "grid \<Rightarrow> int \<Rightarrow> int \<Rightarrow> bool option" where
  "isDuplCol puzzle r c = isDuplCol_loop puzzle r c 0"

text \<open>
  \<open>isDuplSubGrid\<close>: the inner loop over \<open>col\<close> up to \<open>colEnd\<close> and the outer loop over
  \<open>row\<close> up to \<open>rowEnd\<close>. The test \<open>r != row && c != col && puzzle[r][c] == puzzle[row][col]\<close>
  short-circuits, so the two cells are read only when both coordinates differ. A
  \<open>return true\<close> in the inner loop leaves both loops. The C++ division
  \<open>r / SUBGRID_SIZE\<close> truncates towards zero: \<open>sdiv\<close>.
\<close>

function isDuplSubGrid_cols ::
  "grid \<Rightarrow> int \<Rightarrow> int \<Rightarrow> int \<Rightarrow> int \<Rightarrow> int \<Rightarrow> bool option" where
  "isDuplSubGrid_cols puzzle r c row col colEnd =
     (if col < colEnd then
        (if r \<noteq> row \<and> c \<noteq> col then do {
           a \<leftarrow> get puzzle r c;
           b \<leftarrow> get puzzle row col;
           if a = b then Some True
           else isDuplSubGrid_cols puzzle r c row (col + 1) colEnd }
         else isDuplSubGrid_cols puzzle r c row (col + 1) colEnd)
      else Some False)"
  by pat_completeness auto
termination
  by (relation "measure (\<lambda>(puzzle, r, c, row, col, colEnd). nat (colEnd - col))") auto

function isDuplSubGrid_rows ::
  "grid \<Rightarrow> int \<Rightarrow> int \<Rightarrow> int \<Rightarrow> int \<Rightarrow> int \<Rightarrow> int \<Rightarrow> bool option" where
  "isDuplSubGrid_rows puzzle r c row rowEnd colStart colEnd =
     (if row < rowEnd then do {
        found \<leftarrow> isDuplSubGrid_cols puzzle r c row colStart colEnd;
        if found then Some True
        else isDuplSubGrid_rows puzzle r c (row + 1) rowEnd colStart colEnd }
      else Some False)"
  by pat_completeness auto
termination
  by (relation "measure (\<lambda>(puzzle, r, c, row, rowEnd, colStart, colEnd). nat (rowEnd - row))")
     auto

definition isDuplSubGrid :: "grid \<Rightarrow> int \<Rightarrow> int \<Rightarrow> bool option" where
  "isDuplSubGrid puzzle r c =
     (let subGridRow = r sdiv SUBGRID_SIZE;
          subGridCol = c sdiv SUBGRID_SIZE
      in isDuplSubGrid_rows puzzle r c
           (subGridRow * SUBGRID_SIZE) ((subGridRow + 1) * SUBGRID_SIZE)
           (subGridCol * SUBGRID_SIZE) ((subGridCol + 1) * SUBGRID_SIZE))"

text \<open>
  \<open>isValid\<close>: \<open>!(isDuplRow || isDuplCol || isDuplSubGrid)\<close>; \<open>||\<close> short-circuits, so a later
  check runs only when the earlier ones found no duplicate.
\<close>

definition isValid :: "grid \<Rightarrow> int \<Rightarrow> int \<Rightarrow> bool option" where
  "isValid puzzle r c = do {
     dr \<leftarrow> isDuplRow puzzle r c;
     if dr then Some False
     else do {
       dc \<leftarrow> isDuplCol puzzle r c;
       if dc then Some False
       else do {
         ds \<leftarrow> isDuplSubGrid puzzle r c;
         Some (\<not> ds) } } }"

section \<open>The backtracking search\<close>

text \<open>
  The number of cells from \<open>(r, c)\<close> to the end of the grid in row-major order: the
  quantity that decreases along the recursion.
\<close>

definition cellsLeft :: "int \<Rightarrow> int \<Rightarrow> nat" where
  "cellsLeft r c =
     (if 0 \<le> r \<and> r < PUZZLE_SIZE \<and> 0 \<le> c \<and> c < PUZZLE_SIZE
      then nat (PUZZLE_SIZE * PUZZLE_SIZE - (r * PUZZLE_SIZE + c)) else 0)"

text \<open>
  \<open>attempt\<close> and its loop \<open>for (i = 1; i <= PUZZLE_SIZE; i++)\<close>, entered at \<open>i\<close> with the
  current grid, the current values of the local variables \<open>r\<close>, \<open>c\<close> (which \<open>nextPos\<close> and
  \<open>prevPos\<close> update in place) and \<open>solved\<close>. The loop returns all four, since the
  statement after it uses them. The grid is passed in and returned, as the C++ mutates
  it through the reference.
\<close>

function attempt :: "grid \<Rightarrow> int \<Rightarrow> int \<Rightarrow> (bool \<times> grid) option"
  and attempt_loop ::
    "grid \<Rightarrow> int \<Rightarrow> int \<Rightarrow> int \<Rightarrow> bool \<Rightarrow> (bool \<times> grid \<times> int \<times> int) option"
where
  "attempt puzzle r c =
     (if \<not> inBounds puzzle r c then do {
        v \<leftarrow> isValid puzzle (PUZZLE_SIZE - 1) (PUZZLE_SIZE - 1);
        if v then Some (True, puzzle) else Some (False, puzzle) }
      else do {
        x \<leftarrow> get puzzle r c;
        if x = UNKOWN_VALUE then do {
          (solved, puzzle1, r1, c1) \<leftarrow> attempt_loop puzzle r c 1 False;
          if \<not> solved then do {
            puzzle2 \<leftarrow> set_at puzzle1 r1 c1 UNKOWN_VALUE;
            Some (solved, puzzle2) }
          else Some (solved, puzzle1) }
        else do {
          let (r1, c1) = nextPos (r, c);
          (s, puzzle1) \<leftarrow> attempt puzzle r1 c1;
          Some (False \<or> s, puzzle1) } })"
| "attempt_loop puzzle r c i solved =
     (if i \<le> PUZZLE_SIZE then
        (if \<not> solved then do {
           puzzle1 \<leftarrow> set_at puzzle r c i;
           v \<leftarrow> isValid puzzle1 r c;
           if v then do {
             let (r1, c1) = nextPos (r, c);
             (s, puzzle2) \<leftarrow> attempt puzzle1 r1 c1;
             let (r2, c2) = prevPos (r1, c1);
             attempt_loop puzzle2 r2 c2 (i + 1) (solved \<or> s) }
           else attempt_loop puzzle1 r c (i + 1) solved }
         else attempt_loop puzzle r c (i + 1) solved)
      else Some (solved, puzzle, r, c))"
  by pat_completeness auto
termination
proof (relation "measure (\<lambda>x. case x of
          Inl (puzzle, r, c) \<Rightarrow> cellsLeft r c * 12 + 11
        | Inr (puzzle, r, c, i, solved) \<Rightarrow> cellsLeft r c * 12 + nat (10 - i))")
qed (auto simp: cellsLeft_def set_at_def inBounds_def nextPos_def prevPos_def
          split: if_splits)

definition solve :: "grid \<Rightarrow> (bool \<times> grid) option" where
  "solve puzzle = attempt puzzle 0 0"

section \<open>Reading a cell, and the Sudoku rules\<close>

text \<open>
  \<open>cell\<close> is the value stored at an in-bounds position. The three duplicate conditions are
  the ones the rules state: another cell of the row, of the column, or of the 3x3
  sub-block holds the same value. \<open>diagDupl\<close> is the narrower condition that
  \<open>isDuplSubGrid\<close> tests: a cell of the sub-block in another row and another column.
\<close>

definition cell :: "grid \<Rightarrow> int \<Rightarrow> int \<Rightarrow> int" where
  "cell puzzle r c = puzzle ! nat (r * PUZZLE_SIZE + c)"

definition rowDupl :: "grid \<Rightarrow> int \<Rightarrow> int \<Rightarrow> bool" where
  "rowDupl puzzle r c \<longleftrightarrow> (\<exists>i\<in>{0..8}. i \<noteq> c \<and> cell puzzle r i = cell puzzle r c)"

definition colDupl :: "grid \<Rightarrow> int \<Rightarrow> int \<Rightarrow> bool" where
  "colDupl puzzle r c \<longleftrightarrow> (\<exists>i\<in>{0..8}. i \<noteq> r \<and> cell puzzle i c = cell puzzle r c)"

definition blockOf :: "int \<Rightarrow> int set" where
  "blockOf r = {3 * (r div 3) .. 3 * (r div 3) + 2}"

definition diagDupl :: "grid \<Rightarrow> int \<Rightarrow> int \<Rightarrow> bool" where
  "diagDupl puzzle r c \<longleftrightarrow>
     (\<exists>row\<in>blockOf r. \<exists>col\<in>blockOf c.
        row \<noteq> r \<and> col \<noteq> c \<and> cell puzzle row col = cell puzzle r c)"

definition blockDupl :: "grid \<Rightarrow> int \<Rightarrow> int \<Rightarrow> bool" where
  "blockDupl puzzle r c \<longleftrightarrow>
     (\<exists>row\<in>blockOf r. \<exists>col\<in>blockOf c.
        (row \<noteq> r \<or> col \<noteq> c) \<and> cell puzzle row col = cell puzzle r c)"

definition cellValid :: "grid \<Rightarrow> int \<Rightarrow> int \<Rightarrow> bool" where
  "cellValid puzzle r c \<longleftrightarrow>
     \<not> rowDupl puzzle r c \<and> \<not> colDupl puzzle r c \<and> \<not> blockDupl puzzle r c"

text \<open>
  \<open>sees r c r' c'\<close>: the cell \<open>(r', c')\<close> is another cell of the row, the column or the
  sub-block of \<open>(r, c)\<close>.
\<close>

definition sees :: "int \<Rightarrow> int \<Rightarrow> int \<Rightarrow> int \<Rightarrow> bool" where
  "sees r c r' c' \<longleftrightarrow>
     (r' \<noteq> r \<or> c' \<noteq> c) \<and> (r' = r \<or> c' = c \<or> (r' div 3 = r div 3 \<and> c' div 3 = c div 3))"

text \<open>
  The grid's filled cells are mutually consistent: no filled cell has a duplicate in its
  row, column or sub-block.
\<close>

definition consistent :: "grid \<Rightarrow> bool" where
  "consistent puzzle \<longleftrightarrow>
     (\<forall>r\<in>{0..8}. \<forall>c\<in>{0..8}. cell puzzle r c \<noteq> 0 \<longrightarrow> cellValid puzzle r c)"

definition cluesInRange :: "grid \<Rightarrow> bool" where
  "cluesInRange puzzle \<longleftrightarrow>
     (\<forall>r\<in>{0..8}. \<forall>c\<in>{0..8}. cell puzzle r c \<noteq> 0 \<longrightarrow> cell puzzle r c \<in> {1..9})"

definition filled :: "grid \<Rightarrow> bool" where
  "filled puzzle \<longleftrightarrow> (\<forall>r\<in>{0..8}. \<forall>c\<in>{0..8}. cell puzzle r c \<noteq> 0)"

text \<open>
  A solved grid: every row, every column and every 3x3 sub-block contains each value of
  1..9 exactly once.
\<close>

definition rowsOk :: "grid \<Rightarrow> bool" where
  "rowsOk puzzle \<longleftrightarrow>
     (\<forall>r\<in>{0..8}. \<forall>v\<in>{1..9}. \<exists>c\<in>{0..8}. cell puzzle r c = v \<and>
        (\<forall>c'\<in>{0..8}. cell puzzle r c' = v \<longrightarrow> c' = c))"

definition colsOk :: "grid \<Rightarrow> bool" where
  "colsOk puzzle \<longleftrightarrow>
     (\<forall>c\<in>{0..8}. \<forall>v\<in>{1..9}. \<exists>r\<in>{0..8}. cell puzzle r c = v \<and>
        (\<forall>r'\<in>{0..8}. cell puzzle r' c = v \<longrightarrow> r' = r))"

definition blocksOk :: "grid \<Rightarrow> bool" where
  "blocksOk puzzle \<longleftrightarrow>
     (\<forall>br\<in>{0..2}. \<forall>bc\<in>{0..2}. \<forall>v\<in>{1..9}.
        \<exists>r\<in>{3 * br..3 * br + 2}. \<exists>c\<in>{3 * bc..3 * bc + 2}. cell puzzle r c = v \<and>
          (\<forall>r'\<in>{3 * br..3 * br + 2}. \<forall>c'\<in>{3 * bc..3 * bc + 2}.
             cell puzzle r' c' = v \<longrightarrow> r' = r \<and> c' = c))"

definition solvedGrid :: "grid \<Rightarrow> bool" where
  "solvedGrid puzzle \<longleftrightarrow> rowsOk puzzle \<and> colsOk puzzle \<and> blocksOk puzzle"

text \<open>\<open>completes s puzzle\<close>: the grid \<open>s\<close> keeps every filled cell of \<open>puzzle\<close>.\<close>

definition completes :: "grid \<Rightarrow> grid \<Rightarrow> bool" where
  "completes s puzzle \<longleftrightarrow>
     (\<forall>r\<in>{0..8}. \<forall>c\<in>{0..8}. cell puzzle r c \<noteq> 0 \<longrightarrow> cell s r c = cell puzzle r c)"

text \<open>
  The lexicographic order on grids read in row-major order, which is the order of the
  flat cell list.
\<close>

fun lexLe :: "grid \<Rightarrow> grid \<Rightarrow> bool" where
  "lexLe [] ys = True"
| "lexLe (x # xs) [] = False"
| "lexLe (x # xs) (y # ys) = (x < y \<or> (x = y \<and> lexLe xs ys))"

section \<open>A reference search\<close>

text \<open>
  The same depth-first search written without in-place mutation, used to reason about
  \<open>attempt\<close>: \<open>search n\<close> treats the last \<open>n\<close> cells of the grid in row-major order and
  returns the first complete assignment found, \<open>tryVals\<close> tries the listed candidates at
  one cell. That \<open>attempt\<close> computes \<open>search\<close> is proved below.
\<close>

primrec tryVals ::
  "(grid \<Rightarrow> grid option) \<Rightarrow> grid \<Rightarrow> int \<Rightarrow> int \<Rightarrow> int list \<Rightarrow> grid option" where
  "tryVals f puzzle r c [] = None"
| "tryVals f puzzle r c (v # vs) =
     (let puzzle1 = puzzle[nat (r * PUZZLE_SIZE + c) := v] in
      if cellValid puzzle1 r c then
        (case f puzzle1 of Some s \<Rightarrow> Some s | None \<Rightarrow> tryVals f puzzle r c vs)
      else tryVals f puzzle r c vs)"

primrec search :: "nat \<Rightarrow> grid \<Rightarrow> grid option" where
  "search 0 puzzle = (if cellValid puzzle 8 8 then Some puzzle else None)"
| "search (Suc n) puzzle =
     (let k = 80 - n; r = int k div 9; c = int k mod 9 in
      if puzzle ! k \<noteq> 0 then search n puzzle
      else tryVals (search n) puzzle r c [1..9])"

text \<open>What \<open>attempt\<close> returns when the search returns \<open>res\<close>.\<close>

definition outcome :: "grid \<Rightarrow> grid option \<Rightarrow> bool \<times> grid" where
  "outcome puzzle res = (case res of Some s \<Rightarrow> (True, s) | None \<Rightarrow> (False, puzzle))"

text \<open>
  What a successful \<open>search n\<close> guarantees about its result \<open>s\<close>: the cells before the
  last \<open>n\<close> and the filled cells are kept, the last \<open>n\<close> cells are filled, every changed
  cell holds a value of 1..9, the final cell is valid, and consistency is preserved.
\<close>

definition fills :: "nat \<Rightarrow> grid \<Rightarrow> grid \<Rightarrow> bool" where
  "fills n puzzle s \<longleftrightarrow>
     length s = length puzzle \<and>
     (\<forall>j<81. j < 81 - n \<or> puzzle ! j \<noteq> 0 \<longrightarrow> s ! j = puzzle ! j) \<and>
     (\<forall>j<81. 81 - n \<le> j \<longrightarrow> s ! j \<noteq> 0) \<and>
     (\<forall>j<81. s ! j = puzzle ! j \<or> s ! j \<in> {1..9}) \<and>
     cellValid s 8 8 \<and>
     (consistent puzzle \<longrightarrow> consistent s)"

section \<open>The calls made by a run of solve\<close>

text \<open>
  The points a run of \<open>solve\<close> on the grid \<open>puzzle0\<close> passes through: \<open>Call puzzle r c\<close> is an
  entry to \<open>attempt(puzzle, r, c)\<close>, \<open>Loop puzzle r c i solved\<close> is the head of the
  candidate loop of \<open>attempt\<close> with these values of its variables. Each rule follows one
  path of the code of \<open>attempt\<close>.
\<close>

datatype frame = Call grid int int | Loop grid int int int bool

inductive reach :: "grid \<Rightarrow> frame \<Rightarrow> bool" for puzzle0 :: grid where
  reach_solve: "reach puzzle0 (Call puzzle0 0 0)"
| reach_unknown:
    "reach puzzle0 (Call puzzle r c) \<Longrightarrow> inBounds puzzle r c \<Longrightarrow>
     get puzzle r c = Some UNKOWN_VALUE \<Longrightarrow>
     reach puzzle0 (Loop puzzle r c 1 False)"
| reach_given:
    "reach puzzle0 (Call puzzle r c) \<Longrightarrow> inBounds puzzle r c \<Longrightarrow>
     get puzzle r c = Some x \<Longrightarrow> x \<noteq> UNKOWN_VALUE \<Longrightarrow> nextPos (r, c) = (r1, c1) \<Longrightarrow>
     reach puzzle0 (Call puzzle r1 c1)"
| reach_descend:
    "reach puzzle0 (Loop puzzle r c i solved) \<Longrightarrow> i \<le> PUZZLE_SIZE \<Longrightarrow> \<not> solved \<Longrightarrow>
     set_at puzzle r c i = Some puzzle1 \<Longrightarrow> isValid puzzle1 r c = Some True \<Longrightarrow>
     nextPos (r, c) = (r1, c1) \<Longrightarrow>
     reach puzzle0 (Call puzzle1 r1 c1)"
| reach_return:
    "reach puzzle0 (Loop puzzle r c i solved) \<Longrightarrow> i \<le> PUZZLE_SIZE \<Longrightarrow> \<not> solved \<Longrightarrow>
     set_at puzzle r c i = Some puzzle1 \<Longrightarrow> isValid puzzle1 r c = Some True \<Longrightarrow>
     nextPos (r, c) = (r1, c1) \<Longrightarrow> attempt puzzle1 r1 c1 = Some (s, puzzle2) \<Longrightarrow>
     prevPos (r1, c1) = (r2, c2) \<Longrightarrow>
     reach puzzle0 (Loop puzzle2 r2 c2 (i + 1) (solved \<or> s))"
| reach_invalid:
    "reach puzzle0 (Loop puzzle r c i solved) \<Longrightarrow> i \<le> PUZZLE_SIZE \<Longrightarrow> \<not> solved \<Longrightarrow>
     set_at puzzle r c i = Some puzzle1 \<Longrightarrow> isValid puzzle1 r c = Some False \<Longrightarrow>
     reach puzzle0 (Loop puzzle1 r c (i + 1) solved)"
| reach_solved:
    "reach puzzle0 (Loop puzzle r c i solved) \<Longrightarrow> i \<le> PUZZLE_SIZE \<Longrightarrow> solved \<Longrightarrow>
     reach puzzle0 (Loop puzzle r c (i + 1) solved)"

text \<open>
  The invariant of these points: the position is on the row-major path, and the grid is
  consistent, at a loop head once the cell under trial is disregarded.
\<close>

fun frameOk :: "frame \<Rightarrow> bool" where
  "frameOk (Call puzzle r c) \<longleftrightarrow>
     grid9 puzzle \<and> consistent puzzle \<and> (\<exists>k\<le>81. r = int k div 9 \<and> c = int k mod 9)"
| "frameOk (Loop puzzle r c i solved) \<longleftrightarrow>
     grid9 puzzle \<and> 1 \<le> i \<and> (\<exists>k<81. r = int k div 9 \<and> c = int k mod 9) \<and>
     (if solved then consistent puzzle else consistent (puzzle[nat (r * 9 + c) := 0]))"

text \<open>
  A second invariant of these points: the grid keeps every given clue of the input, the
  cells from the current position on are those of the input, and the cell under trial
  in a loop was empty in the input.
\<close>

fun frameKeeps :: "grid \<Rightarrow> frame \<Rightarrow> bool" where
  "frameKeeps puzzle0 (Call puzzle r c) \<longleftrightarrow>
     grid9 puzzle \<and> completes puzzle puzzle0 \<and>
     (\<exists>k\<le>81. r = int k div 9 \<and> c = int k mod 9 \<and> (\<forall>j<81. k \<le> j \<longrightarrow> puzzle ! j = puzzle0 ! j))"
| "frameKeeps puzzle0 (Loop puzzle r c i solved) \<longleftrightarrow>
     grid9 puzzle \<and> completes puzzle puzzle0 \<and>
     (\<exists>k<81. r = int k div 9 \<and> c = int k mod 9 \<and> puzzle0 ! k = 0 \<and>
        (solved \<or> (\<forall>j<81. k < j \<longrightarrow> puzzle ! j = puzzle0 ! j)))"

section \<open>Example grids\<close>

definition solved0 :: grid where
  "solved0 =
     [5, 3, 4, 6, 7, 8, 9, 1, 2,
      6, 7, 2, 1, 9, 5, 3, 4, 8,
      1, 9, 8, 3, 4, 2, 5, 6, 7,
      8, 5, 9, 7, 6, 1, 4, 2, 3,
      4, 2, 6, 8, 5, 3, 7, 9, 1,
      7, 1, 3, 9, 2, 4, 8, 5, 6,
      9, 6, 1, 5, 3, 7, 2, 8, 4,
      2, 8, 7, 4, 1, 9, 6, 3, 5,
      3, 4, 5, 2, 8, 6, 1, 7, 9]"

text \<open>
  \<open>solved0\<close> with eight cells blanked; its only completion is \<open>solved0\<close>.
\<close>

definition easy0 :: grid where
  "easy0 =
     [0, 0, 4, 6, 7, 8, 9, 1, 2,
      6, 7, 2, 0, 9, 5, 3, 4, 8,
      1, 9, 8, 3, 4, 2, 5, 6, 7,
      0, 5, 9, 7, 6, 1, 4, 2, 3,
      4, 2, 6, 8, 0, 3, 7, 9, 1,
      7, 1, 3, 9, 2, 4, 8, 5, 0,
      9, 6, 1, 5, 3, 7, 2, 8, 4,
      2, 8, 7, 0, 1, 9, 6, 3, 5,
      3, 4, 5, 2, 8, 6, 1, 7, 0]"

text \<open>
  \<open>solved0\<close> with (0, 0) blanked and the clue at (4, 4) changed to 6, which repeats the 6
  of (4, 2); and the grid the search leaves.
\<close>

definition clash0 :: grid where
  "clash0 =
     [0, 3, 4, 6, 7, 8, 9, 1, 2,
      6, 7, 2, 1, 9, 5, 3, 4, 8,
      1, 9, 8, 3, 4, 2, 5, 6, 7,
      8, 5, 9, 7, 6, 1, 4, 2, 3,
      4, 2, 6, 8, 6, 3, 7, 9, 1,
      7, 1, 3, 9, 2, 4, 8, 5, 6,
      9, 6, 1, 5, 3, 7, 2, 8, 4,
      2, 8, 7, 4, 1, 9, 6, 3, 5,
      3, 4, 5, 2, 8, 6, 1, 7, 9]"

definition clash0_result :: grid where
  "clash0_result =
     [5, 3, 4, 6, 7, 8, 9, 1, 2,
      6, 7, 2, 1, 9, 5, 3, 4, 8,
      1, 9, 8, 3, 4, 2, 5, 6, 7,
      8, 5, 9, 7, 6, 1, 4, 2, 3,
      4, 2, 6, 8, 6, 3, 7, 9, 1,
      7, 1, 3, 9, 2, 4, 8, 5, 6,
      9, 6, 1, 5, 3, 7, 2, 8, 4,
      2, 8, 7, 4, 1, 9, 6, 3, 5,
      3, 4, 5, 2, 8, 6, 1, 7, 9]"

text \<open>\<open>solved0\<close> with (0, 0) changed to 3, the value of (0, 1): a filled grid.\<close>

definition rowclash0 :: grid where
  "rowclash0 =
     [3, 3, 4, 6, 7, 8, 9, 1, 2,
      6, 7, 2, 1, 9, 5, 3, 4, 8,
      1, 9, 8, 3, 4, 2, 5, 6, 7,
      8, 5, 9, 7, 6, 1, 4, 2, 3,
      4, 2, 6, 8, 5, 3, 7, 9, 1,
      7, 1, 3, 9, 2, 4, 8, 5, 6,
      9, 6, 1, 5, 3, 7, 2, 8, 4,
      2, 8, 7, 4, 1, 9, 6, 3, 5,
      3, 4, 5, 2, 8, 6, 1, 7, 9]"

text \<open>
  A grid with consistent clues and no completion: (0, 0) takes 5, and then the 3 at
  (2, 0) leaves no value for (0, 1), whose row holds every other value.
\<close>

definition unsolvable0 :: grid where
  "unsolvable0 =
     [0, 0, 4, 6, 7, 8, 9, 1, 2,
      6, 7, 2, 1, 9, 5, 3, 4, 8,
      3, 9, 8, 0, 4, 2, 5, 6, 7,
      8, 5, 9, 7, 6, 1, 4, 2, 3,
      4, 2, 6, 8, 5, 3, 7, 9, 1,
      7, 1, 3, 9, 2, 4, 8, 5, 6,
      9, 6, 1, 5, 3, 7, 2, 8, 4,
      2, 8, 7, 4, 1, 9, 6, 3, 5,
      0, 4, 5, 2, 8, 6, 1, 7, 9]"

text \<open>\<open>solved0\<close> changed to repeat the value of (0, 0) at (1, 1).\<close>

definition diag0 :: grid where
  "diag0 =
     [5, 3, 4, 6, 7, 8, 9, 1, 2,
      6, 5, 2, 1, 9, 5, 3, 4, 8,
      1, 9, 8, 3, 4, 2, 5, 6, 7,
      8, 5, 9, 7, 6, 1, 4, 2, 3,
      4, 2, 6, 8, 5, 3, 7, 9, 1,
      7, 1, 3, 9, 2, 4, 8, 5, 6,
      9, 6, 1, 5, 3, 7, 2, 8, 4,
      2, 8, 7, 4, 1, 9, 6, 3, 5,
      3, 4, 5, 2, 8, 6, 1, 7, 9]"

text \<open>
  \<open>solved0\<close> with the four cells (2, 4), (2, 5), (5, 4), (5, 5) blanked: it has two
  completions, \<open>solved0\<close> and \<open>two0_first\<close>.
\<close>

definition two0 :: grid where
  "two0 =
     [5, 3, 4, 6, 7, 8, 9, 1, 2,
      6, 7, 2, 1, 9, 5, 3, 4, 8,
      1, 9, 8, 3, 0, 0, 5, 6, 7,
      8, 5, 9, 7, 6, 1, 4, 2, 3,
      4, 2, 6, 8, 5, 3, 7, 9, 1,
      7, 1, 3, 9, 0, 0, 8, 5, 6,
      9, 6, 1, 5, 3, 7, 2, 8, 4,
      2, 8, 7, 4, 1, 9, 6, 3, 5,
      3, 4, 5, 2, 8, 6, 1, 7, 9]"

definition two0_first :: grid where
  "two0_first =
     [5, 3, 4, 6, 7, 8, 9, 1, 2,
      6, 7, 2, 1, 9, 5, 3, 4, 8,
      1, 9, 8, 3, 2, 4, 5, 6, 7,
      8, 5, 9, 7, 6, 1, 4, 2, 3,
      4, 2, 6, 8, 5, 3, 7, 9, 1,
      7, 1, 3, 9, 4, 2, 8, 5, 6,
      9, 6, 1, 5, 3, 7, 2, 8, 4,
      2, 8, 7, 4, 1, 9, 6, 3, 5,
      3, 4, 5, 2, 8, 6, 1, 7, 9]"

section \<open>The checks compute the duplicate conditions\<close>

declare isDuplRow_loop.simps [simp del] isDuplCol_loop.simps [simp del]
  isDuplSubGrid_cols.simps [simp del] isDuplSubGrid_rows.simps [simp del]
  attempt.simps [simp del] attempt_loop.simps [simp del]

lemma get_cell: "inBounds puzzle r c \<Longrightarrow> get puzzle r c = Some (cell puzzle r c)"
  by (simp add: get_def cell_def)

lemma inBounds_iff: "inBounds puzzle r c \<longleftrightarrow> r \<in> {0..8} \<and> c \<in> {0..8}"
  by (auto simp: inBounds_def)

lemma isDuplRow_loop_eq:
  "inBounds puzzle r c \<Longrightarrow> 0 \<le> i \<Longrightarrow>
   isDuplRow_loop puzzle r c i =
     Some (\<exists>j\<in>{i..8}. j \<noteq> c \<and> cell puzzle r j = cell puzzle r c)"
proof (induction puzzle r c i rule: isDuplRow_loop.induct)
  case (1 puzzle r c i)
  show ?case
  proof (cases "i < 9")
    case False
    then show ?thesis by (subst isDuplRow_loop.simps) simp
  next
    case True
    with "1.prems" have ib: "inBounds puzzle r i" by (simp add: inBounds_def)
    have split: "{i..8} = insert i {i + 1..8}" using True by auto
    show ?thesis
    proof (cases "cell puzzle r i = cell puzzle r c \<and> i \<noteq> c")
      case hit: True
      then show ?thesis using True ib "1.prems"
        by (subst isDuplRow_loop.simps) (auto simp: get_cell split)
    next
      case miss: False
      have "isDuplRow_loop puzzle r c (i + 1) =
            Some (\<exists>j\<in>{i + 1..8}. j \<noteq> c \<and> cell puzzle r j = cell puzzle r c)"
        using "1.IH"[OF True _ _ miss] "1.prems" ib by (simp add: get_cell)
      then show ?thesis using True ib "1.prems" miss
        by (subst isDuplRow_loop.simps) (auto simp: get_cell split)
    qed
  qed
qed

lemma isDuplRow_eq:
  "inBounds puzzle r c \<Longrightarrow> isDuplRow puzzle r c = Some (rowDupl puzzle r c)"
  using isDuplRow_loop_eq[of puzzle r c 0] by (simp add: isDuplRow_def rowDupl_def)

lemma isDuplCol_loop_eq:
  "inBounds puzzle r c \<Longrightarrow> 0 \<le> i \<Longrightarrow>
   isDuplCol_loop puzzle r c i =
     Some (\<exists>j\<in>{i..8}. j \<noteq> r \<and> cell puzzle j c = cell puzzle r c)"
proof (induction puzzle r c i rule: isDuplCol_loop.induct)
  case (1 puzzle r c i)
  show ?case
  proof (cases "i < 9")
    case False
    then show ?thesis by (subst isDuplCol_loop.simps) simp
  next
    case True
    with "1.prems" have ib: "inBounds puzzle i c" by (simp add: inBounds_def)
    have split: "{i..8} = insert i {i + 1..8}" using True by auto
    show ?thesis
    proof (cases "cell puzzle i c = cell puzzle r c \<and> i \<noteq> r")
      case hit: True
      then show ?thesis using True ib "1.prems"
        by (subst isDuplCol_loop.simps) (auto simp: get_cell split)
    next
      case miss: False
      have "isDuplCol_loop puzzle r c (i + 1) =
            Some (\<exists>j\<in>{i + 1..8}. j \<noteq> r \<and> cell puzzle j c = cell puzzle r c)"
        using "1.IH"[OF True _ _ miss] "1.prems" ib by (simp add: get_cell)
      then show ?thesis using True ib "1.prems" miss
        by (subst isDuplCol_loop.simps) (auto simp: get_cell split)
    qed
  qed
qed

lemma isDuplCol_eq:
  "inBounds puzzle r c \<Longrightarrow> isDuplCol puzzle r c = Some (colDupl puzzle r c)"
  using isDuplCol_loop_eq[of puzzle r c 0] by (simp add: isDuplCol_def colDupl_def)

lemma isDuplSubGrid_cols_eq:
  "inBounds puzzle r c \<Longrightarrow> row \<in> {0..8} \<Longrightarrow> 0 \<le> col \<Longrightarrow> colEnd \<le> 9 \<Longrightarrow>
   isDuplSubGrid_cols puzzle r c row col colEnd =
     Some (\<exists>j\<in>{col..colEnd - 1}. row \<noteq> r \<and> j \<noteq> c \<and> cell puzzle row j = cell puzzle r c)"
proof (induction puzzle r c row col colEnd rule: isDuplSubGrid_cols.induct)
  case (1 puzzle r c row col colEnd)
  show ?case
  proof (cases "col < colEnd")
    case False
    then show ?thesis by (subst isDuplSubGrid_cols.simps) simp
  next
    case True
    with "1.prems" have ib: "inBounds puzzle row col" by (simp add: inBounds_def)
    have split: "{col..colEnd - 1} = insert col {col + 1..colEnd - 1}" using True by auto
    show ?thesis
    proof (cases "r \<noteq> row \<and> c \<noteq> col")
      case diag: True
      show ?thesis
      proof (cases "cell puzzle r c = cell puzzle row col")
        case hit: True
        then show ?thesis using True ib "1.prems" diag
          by (subst isDuplSubGrid_cols.simps) (auto simp: get_cell split)
      next
        case miss: False
        have "isDuplSubGrid_cols puzzle r c row (col + 1) colEnd =
            Some (\<exists>j\<in>{col + 1..colEnd - 1}. row \<noteq> r \<and> j \<noteq> c \<and> cell puzzle row j = cell puzzle r c)"
          using "1.IH"(1)[OF True diag _ _ miss] "1.prems" ib by (simp add: get_cell)
        then show ?thesis using True ib "1.prems" miss diag
          by (subst isDuplSubGrid_cols.simps) (auto simp: get_cell split)
      qed
    next
      case aligned: False
      have "isDuplSubGrid_cols puzzle r c row (col + 1) colEnd =
            Some (\<exists>j\<in>{col + 1..colEnd - 1}. row \<noteq> r \<and> j \<noteq> c \<and> cell puzzle row j = cell puzzle r c)"
        using "1.IH"(2)[OF True aligned] "1.prems" by simp
      then show ?thesis using True aligned
        by (subst isDuplSubGrid_cols.simps) (auto simp: split)
    qed
  qed
qed

lemma isDuplSubGrid_rows_eq:
  "inBounds puzzle r c \<Longrightarrow> 0 \<le> row \<Longrightarrow> rowEnd \<le> 9 \<Longrightarrow> 0 \<le> colStart \<Longrightarrow> colEnd \<le> 9 \<Longrightarrow>
   isDuplSubGrid_rows puzzle r c row rowEnd colStart colEnd =
     Some (\<exists>i\<in>{row..rowEnd - 1}. \<exists>j\<in>{colStart..colEnd - 1}.
             i \<noteq> r \<and> j \<noteq> c \<and> cell puzzle i j = cell puzzle r c)"
proof (induction puzzle r c row rowEnd colStart colEnd rule: isDuplSubGrid_rows.induct)
  case (1 puzzle r c row rowEnd colStart colEnd)
  show ?case
  proof (cases "row < rowEnd")
    case False
    then show ?thesis by (subst isDuplSubGrid_rows.simps) simp
  next
    case True
    with "1.prems" have rw: "row \<in> {0..8}" by simp
    have split: "{row..rowEnd - 1} = insert row {row + 1..rowEnd - 1}" using True by auto
    have cols: "isDuplSubGrid_cols puzzle r c row colStart colEnd =
       Some (\<exists>j\<in>{colStart..colEnd - 1}. row \<noteq> r \<and> j \<noteq> c \<and> cell puzzle row j = cell puzzle r c)"
      using "1.prems" rw by (intro isDuplSubGrid_cols_eq) auto
    show ?thesis
    proof (cases "\<exists>j\<in>{colStart..colEnd - 1}. row \<noteq> r \<and> j \<noteq> c \<and> cell puzzle row j = cell puzzle r c")
      case hit: True
      then show ?thesis using True cols
        by (subst isDuplSubGrid_rows.simps) (auto simp: split)
    next
      case miss: False
      have "isDuplSubGrid_rows puzzle r c (row + 1) rowEnd colStart colEnd =
        Some (\<exists>i\<in>{row + 1..rowEnd - 1}. \<exists>j\<in>{colStart..colEnd - 1}.
             i \<noteq> r \<and> j \<noteq> c \<and> cell puzzle i j = cell puzzle r c)"
        using "1.IH"[OF True cols] miss "1.prems" by simp
      then show ?thesis using True cols miss
        by (subst isDuplSubGrid_rows.simps) (auto simp: split)
    qed
  qed
qed

lemma sdiv_3_nonneg: "0 \<le> r \<Longrightarrow> r sdiv 3 = r div (3::int)"
  by (simp add: signed_divide_int_def sgn_if)

lemma isDuplSubGrid_eq:
  assumes "inBounds puzzle r c"
  shows "isDuplSubGrid puzzle r c = Some (diagDupl puzzle r c)"
proof -
  from assms have r: "0 \<le> r" "r \<le> 8" and c: "0 \<le> c" "c \<le> 8"
    by (auto simp: inBounds_def)
  have b: "0 \<le> r div 3 * 3" "(r div 3 + 1) * 3 \<le> 9" "0 \<le> c div 3 * 3" "(c div 3 + 1) * 3 \<le> 9"
    using r c by auto
  have e: "{r div 3 * 3..(r div 3 + 1) * 3 - 1} = blockOf r"
     "{c div 3 * 3..(c div 3 + 1) * 3 - 1} = blockOf c"
    by (auto simp: blockOf_def)
  have "isDuplSubGrid puzzle r c =
        isDuplSubGrid_rows puzzle r c (r div 3 * 3) ((r div 3 + 1) * 3)
          (c div 3 * 3) ((c div 3 + 1) * 3)"
    unfolding isDuplSubGrid_def Let_def sdiv_3_nonneg[OF r(1)] sdiv_3_nonneg[OF c(1)] ..
  also have "\<dots> = Some (diagDupl puzzle r c)"
    unfolding isDuplSubGrid_rows_eq[OF assms b] e diagDupl_def ..
  finally show ?thesis .
qed

lemma blockOf_sub: "r \<in> {0..8} \<Longrightarrow> blockOf r \<subseteq> {0..8}"
  by (auto simp: blockOf_def)

lemma blockOf_self: "r \<in> blockOf r"
  by (auto simp: blockOf_def)

lemma blockDupl_iff:
  assumes "inBounds puzzle r c" "\<not> rowDupl puzzle r c" "\<not> colDupl puzzle r c"
  shows "blockDupl puzzle r c \<longleftrightarrow> diagDupl puzzle r c"
proof
  assume "diagDupl puzzle r c"
  then show "blockDupl puzzle r c" by (auto simp: diagDupl_def blockDupl_def)
next
  assume "blockDupl puzzle r c"
  then obtain row col where rc: "row \<in> blockOf r" "col \<in> blockOf c"
      "row \<noteq> r \<or> col \<noteq> c" "cell puzzle row col = cell puzzle r c"
    by (auto simp: blockDupl_def)
  from assms(1) rc(1,2) have in9: "row \<in> {0..8}" "col \<in> {0..8}"
    using blockOf_sub[of r] blockOf_sub[of c] by (auto simp: inBounds_def)
  have "row \<noteq> r" using assms(2) rc in9 by (auto simp: rowDupl_def)
  moreover have "col \<noteq> c" using assms(3) rc in9 by (auto simp: colDupl_def)
  ultimately show "diagDupl puzzle r c" using rc by (auto simp: diagDupl_def)
qed

lemma isValid_eq:
  assumes "inBounds puzzle r c"
  shows "isValid puzzle r c = Some (cellValid puzzle r c)"
  using blockDupl_iff[OF assms]
  by (auto simp: isValid_def isDuplRow_eq[OF assms] isDuplCol_eq[OF assms]
        isDuplSubGrid_eq[OF assms] cellValid_def)

section \<open>attempt computes the reference search\<close>

lemma set_at_eq:
  "inBounds puzzle r c \<Longrightarrow> set_at puzzle r c v = Some (puzzle[nat (r * 9 + c) := v])"
  by (simp add: set_at_def)

lemma prevPos_nextPos: "inBounds puzzle r c \<Longrightarrow> prevPos (nextPos (r, c)) = (r, c)"
  by (auto simp: inBounds_def nextPos_def prevPos_def)

lemma attempt_loop_solved: "attempt_loop puzzle r c i True = Some (True, puzzle, r, c)"
proof (induction "nat (10 - i)" arbitrary: i)
  case 0
  then show ?case by (subst attempt_loop.simps) simp
next
  case (Suc m)
  then have "attempt_loop puzzle r c (i + 1) True = Some (True, puzzle, r, c)" by simp
  then show ?case by (subst attempt_loop.simps) simp
qed

lemma pos_inBounds: "k < 81 \<Longrightarrow> inBounds puzzle (int k div 9) (int k mod 9)"
  by (auto simp: inBounds_def)

lemma pos_idx: "nat (int k div 9 * 9 + int k mod 9) = k"
  by simp

lemma nextPos_pos:
  "nextPos (int k div 9, int k mod 9) = (int (Suc k) div 9, int (Suc k) mod 9)"
proof -
  define q m where "q = int k div 9" and "m = int k mod 9"
  have e: "int k = 9 * q + m" and m: "0 \<le> m" "m < 9" by (simp_all add: q_def m_def)
  show ?thesis
  proof (cases "m + 1 = 9")
    case True
    then have s: "int (Suc k) = 9 * (q + 1) + 0" using e by simp
    have "int (Suc k) div 9 = q + 1" by (rule int_div_pos_eq[OF s]) simp_all
    moreover have "int (Suc k) mod 9 = 0" by (rule int_mod_pos_eq[OF s]) simp_all
    ultimately show ?thesis using True by (simp add: nextPos_def q_def[symmetric] m_def[symmetric])
  next
    case False
    then have s: "int (Suc k) = 9 * q + (m + 1)" and m1: "0 \<le> m + 1" "m + 1 < 9"
      using e m by simp_all
    have "int (Suc k) div 9 = q" by (rule int_div_pos_eq[OF s m1])
    moreover have "int (Suc k) mod 9 = m + 1" by (rule int_mod_pos_eq[OF s m1])
    ultimately show ?thesis using False by (simp add: nextPos_def q_def[symmetric] m_def[symmetric])
  qed
qed

lemma attempt_loop_tryVals:
  assumes IH: "\<And>p. grid9 p \<Longrightarrow> attempt p r1 c1 = Some (outcome p (f p))"
    and ib: "inBounds puzzle r c" and nx: "nextPos (r, c) = (r1, c1)"
    and g9: "grid9 puzzle"
  shows "attempt_loop (puzzle[nat (r * 9 + c) := j]) r c i False =
     Some (case tryVals f puzzle r c [i..9] of
             Some s \<Rightarrow> (True, s, r, c)
           | None \<Rightarrow> (False, if i \<le> 9 then puzzle[nat (r * 9 + c) := 9]
                             else puzzle[nat (r * 9 + c) := j], r, c))"
proof (induction "nat (10 - i)" arbitrary: i j)
  case 0
  then show ?case by (subst attempt_loop.simps) simp
next
  case (Suc m)
  then have i9: "i \<le> 9" by simp
  let ?k = "nat (r * 9 + c)"
  let ?p1 = "puzzle[?k := i]"
  have ib1: "inBounds (puzzle[?k := j]) r c" "inBounds ?p1 r c"
    using ib by (simp_all add: inBounds_def)
  have up: "[i..9] = i # [i + 1..9]" using i9 by (simp add: upto_rec1)
  have g91: "grid9 ?p1" using g9 by (simp add: grid9_def)
  have rest: "attempt_loop ?p1 r c (i + 1) False =
     Some (case tryVals f puzzle r c [i + 1..9] of
             Some s \<Rightarrow> (True, s, r, c)
           | None \<Rightarrow> (False, puzzle[?k := 9], r, c))"
  proof (cases "i = 9")
    case True
    have "attempt_loop (puzzle[?k := 9]) r c 10 False = Some (False, puzzle[?k := 9], r, c)"
      by (subst attempt_loop.simps) simp
    then show ?thesis using True by simp
  next
    case False
    then show ?thesis
      using Suc.hyps(1)[of "i + 1" i] Suc.hyps(2) i9 by (auto split: option.splits)
  qed
  show ?case
  proof (cases "cellValid ?p1 r c")
    case False
    then show ?thesis using i9 rest
      by (subst attempt_loop.simps)
         (simp add: set_at_eq[OF ib1(1)] isValid_eq[OF ib1(2)] up)
  next
    case True
    show ?thesis
    proof (cases "f ?p1")
      case None
      then show ?thesis using i9 rest True
        by (subst attempt_loop.simps)
           (simp add: set_at_eq[OF ib1(1)] isValid_eq[OF ib1(2)] up nx IH[OF g91]
              outcome_def prevPos_nextPos[OF ib, unfolded nx])
    next
      case (Some s)
      then show ?thesis using i9 True
        by (subst attempt_loop.simps)
           (simp add: set_at_eq[OF ib1(1)] isValid_eq[OF ib1(2)] up nx IH[OF g91]
              outcome_def prevPos_nextPos[OF ib, unfolded nx] attempt_loop_solved)
    qed
  qed
qed

lemma attempt_search:
  "grid9 puzzle \<Longrightarrow> n \<le> 81 \<Longrightarrow>
   attempt puzzle (int (81 - n) div 9) (int (81 - n) mod 9) =
     Some (outcome puzzle (search n puzzle))"
proof (induction n arbitrary: puzzle)
  case 0
  have "\<not> inBounds puzzle 9 0" "inBounds puzzle 8 8" by (simp_all add: inBounds_def)
  then show ?case
    by (subst attempt.simps) (simp add: isValid_eq outcome_def)
next
  case (Suc n)
  let ?k = "80 - n"
  let ?r = "int ?k div 9" and ?c = "int ?k mod 9"
  from Suc.prems have k: "?k < 81" "81 - Suc n = ?k" "Suc ?k = 81 - n" by simp_all
  have ib: "inBounds puzzle ?r ?c" using pos_inBounds[OF k(1)] .
  have nx: "nextPos (?r, ?c) = (int (81 - n) div 9, int (81 - n) mod 9)"
    using nextPos_pos[of ?k] k(3) by simp
  have IH: "\<And>p. grid9 p \<Longrightarrow>
      attempt p (int (81 - n) div 9) (int (81 - n) mod 9) = Some (outcome p (search n p))"
    using Suc.IH Suc.prems(2) by simp
  have gk: "get puzzle ?r ?c = Some (puzzle ! ?k)"
    using ib by (simp add: get_def pos_idx del: of_nat_diff)
  show ?case
  proof (cases "puzzle ! ?k = 0")
    case False
    then show ?thesis using ib gk IH[OF Suc.prems(1)]
      unfolding k(2)
      by (subst attempt.simps) (simp add: nx outcome_def split: option.splits)
  next
    case True
    have same: "puzzle[?k := puzzle ! ?k] = puzzle" by simp
    have "attempt_loop (puzzle[nat (?r * 9 + ?c) := puzzle ! ?k]) ?r ?c 1 False =
       Some (case tryVals (search n) puzzle ?r ?c [1..9] of
             Some s \<Rightarrow> (True, s, ?r, ?c)
           | None \<Rightarrow> (False, if (1::int) \<le> 9 then puzzle[nat (?r * 9 + ?c) := 9]
                             else puzzle[nat (?r * 9 + ?c) := puzzle ! ?k], ?r, ?c))"
      by (rule attempt_loop_tryVals[OF IH ib nx Suc.prems(1)])
    then have lp: "attempt_loop puzzle ?r ?c 1 False =
       Some (case tryVals (search n) puzzle ?r ?c [1..9] of
             Some s \<Rightarrow> (True, s, ?r, ?c)
           | None \<Rightarrow> (False, puzzle[?k := 9], ?r, ?c))"
      unfolding pos_idx same by simp
    have restore: "puzzle[?k := 9, ?k := 0] = puzzle" using True
      by (metis list_update_id list_update_overwrite)
    have ib9: "inBounds (puzzle[?k := 9]) ?r ?c" using ib by (simp add: inBounds_def)
    show ?thesis using ib gk True lp restore
      unfolding k(2)
      by (subst attempt.simps)
         (simp add: outcome_def set_at_eq[OF ib9] pos_idx split: option.splits del: of_nat_diff)
  qed
qed

lemma solve_search:
  "grid9 puzzle \<Longrightarrow> solve puzzle = Some (outcome puzzle (search 81 puzzle))"
  using attempt_search[of puzzle 81] by (simp add: solve_def)

section \<open>Cells, consistency and solved grids\<close>

lemma idx_lt: "r \<in> {0..8} \<Longrightarrow> c \<in> {0..8} \<Longrightarrow> nat (r * 9 + c) < 81"
  by auto

lemma idx_inj:
  "r \<in> {0..8} \<Longrightarrow> c \<in> {0..8} \<Longrightarrow> r' \<in> {0..8} \<Longrightarrow> c' \<in> {0..8} \<Longrightarrow>
   nat (r * 9 + c) = nat (r' * 9 + c') \<longleftrightarrow> r = r' \<and> c = c'"
proof
  assume b: "r \<in> {0..8}" "c \<in> {0..8}" "r' \<in> {0..8}" "c' \<in> {0..8}"
    and e: "nat (r * 9 + c) = nat (r' * 9 + c')"
  from b e have "r * 9 + c = r' * 9 + c'" by auto
  then have "(r * 9 + c) div 9 = (r' * 9 + c') div 9" "(r * 9 + c) mod 9 = (r' * 9 + c') mod 9"
    by simp_all
  with b show "r = r' \<and> c = c'" by simp
qed simp

lemma cells_all:
  "(\<forall>r\<in>{0..8}. \<forall>c\<in>{0..8}. P (nat (r * 9 + c))) \<longleftrightarrow> (\<forall>j<81. P j)"
proof
  assume a: "\<forall>r\<in>{0..8}. \<forall>c\<in>{0..8}. P (nat (r * 9 + c))"
  show "\<forall>j<81. P j"
  proof (intro allI impI)
    fix j :: nat assume "j < 81"
    then have "int j div 9 \<in> {0..8}" "int j mod 9 \<in> {0..8}" by auto
    with a have "P (nat (int j div 9 * 9 + int j mod 9))" by blast
    then show "P j" by (simp only: pos_idx)
  qed
next
  assume "\<forall>j<81. P j"
  then show "\<forall>r\<in>{0..8}. \<forall>c\<in>{0..8}. P (nat (r * 9 + c))"
    using idx_lt by blast
qed

lemma cell_update:
  assumes "grid9 puzzle" "r \<in> {0..8}" "c \<in> {0..8}" "r' \<in> {0..8}" "c' \<in> {0..8}"
  shows "cell (puzzle[nat (r * 9 + c) := v]) r' c' =
           (if r' = r \<and> c' = c then v else cell puzzle r' c')"
proof -
  have "nat (r * 9 + c) < length puzzle" using assms idx_lt by (simp add: grid9_def)
  then show ?thesis
    using idx_inj[OF assms(2-5)] by (auto simp: cell_def nth_list_update)
qed

lemma blockOf_iff: "row \<in> blockOf r \<longleftrightarrow> row div 3 = r div 3"
  by (auto simp: blockOf_def)

lemma cellValid_iff:
  assumes "r \<in> {0..8}" "c \<in> {0..8}"
  shows "cellValid puzzle r c \<longleftrightarrow>
     (\<forall>r'\<in>{0..8}. \<forall>c'\<in>{0..8}. sees r c r' c' \<longrightarrow> cell puzzle r' c' \<noteq> cell puzzle r c)"
proof
  assume v: "cellValid puzzle r c"
  show "\<forall>r'\<in>{0..8}. \<forall>c'\<in>{0..8}. sees r c r' c' \<longrightarrow> cell puzzle r' c' \<noteq> cell puzzle r c"
  proof (intro ballI impI)
    fix r' c' assume rc: "r' \<in> {0..8}" "c' \<in> {0..8}" "sees r c r' c'"
    show "cell puzzle r' c' \<noteq> cell puzzle r c"
    proof
      assume e: "cell puzzle r' c' = cell puzzle r c"
      from rc(3) consider "r' = r" "c' \<noteq> c" | "c' = c" "r' \<noteq> r"
        | "r' div 3 = r div 3" "c' div 3 = c div 3" "r' \<noteq> r \<or> c' \<noteq> c"
        by (auto simp: sees_def)
      then show False
      proof cases
        case 1 with v rc e show False by (auto simp: cellValid_def rowDupl_def)
      next
        case 2 with v rc e show False by (auto simp: cellValid_def colDupl_def)
      next
        case 3
        then have "r' \<in> blockOf r" "c' \<in> blockOf c" by (simp_all add: blockOf_iff)
        with 3(3) e have "blockDupl puzzle r c" unfolding blockDupl_def by blast
        with v show False by (simp add: cellValid_def)
      qed
    qed
  qed
next
  assume a: "\<forall>r'\<in>{0..8}. \<forall>c'\<in>{0..8}. sees r c r' c' \<longrightarrow> cell puzzle r' c' \<noteq> cell puzzle r c"
  have "\<not> rowDupl puzzle r c" using a assms by (auto simp: rowDupl_def sees_def)
  moreover have "\<not> colDupl puzzle r c" using a assms by (auto simp: colDupl_def sees_def)
  moreover have "\<not> blockDupl puzzle r c"
  proof
    assume "blockDupl puzzle r c"
    then obtain row col where rc: "row \<in> blockOf r" "col \<in> blockOf c"
      "row \<noteq> r \<or> col \<noteq> c" "cell puzzle row col = cell puzzle r c"
      by (auto simp: blockDupl_def)
    have "row \<in> {0..8}" "col \<in> {0..8}"
      using rc(1,2) blockOf_sub[OF assms(1)] blockOf_sub[OF assms(2)] by auto
    moreover have "sees r c row col" using rc by (auto simp: sees_def blockOf_iff)
    ultimately show False using a rc(4) by blast
  qed
  ultimately show "cellValid puzzle r c" by (simp add: cellValid_def)
qed

lemma sees_sym: "sees r c r' c' \<Longrightarrow> sees r' c' r c"
  by (auto simp: sees_def)

lemma consistent_update:
  assumes g9: "grid9 puzzle" and rc: "r \<in> {0..8}" "c \<in> {0..8}"
    and v: "v \<noteq> 0" and con: "consistent puzzle"
    and ok: "cellValid (puzzle[nat (r * 9 + c) := v]) r c"
  shows "consistent (puzzle[nat (r * 9 + c) := v])"
  unfolding consistent_def
proof (intro ballI impI)
  let ?p1 = "puzzle[nat (r * 9 + c) := v]"
  fix r' c' assume q: "r' \<in> {0..8}" "c' \<in> {0..8}" "cell ?p1 r' c' \<noteq> 0"
  show "cellValid ?p1 r' c'"
  proof (cases "r' = r \<and> c' = c")
    case True
    then show ?thesis using ok by simp
  next
    case False
    then have same: "cell ?p1 r' c' = cell puzzle r' c'"
      using cell_update[OF g9 rc q(1,2)] by auto
    with q con have old: "cellValid puzzle r' c'" by (simp add: consistent_def)
    show ?thesis
      unfolding cellValid_iff[OF q(1,2)]
    proof (intro ballI impI)
      fix r'' c'' assume w: "r'' \<in> {0..8}" "c'' \<in> {0..8}" "sees r' c' r'' c''"
      show "cell ?p1 r'' c'' \<noteq> cell ?p1 r' c'"
      proof (cases "r'' = r \<and> c'' = c")
        case True
        then have "sees r c r' c'" using w(3) sees_sym by blast
        then have "cell ?p1 r' c' \<noteq> cell ?p1 r c"
          using ok q unfolding cellValid_iff[OF rc] by blast
        then show ?thesis using True by simp
      next
        case other: False
        then have "cell ?p1 r'' c'' = cell puzzle r'' c''"
          using cell_update[OF g9 rc w(1,2)] by auto
        moreover have "cell puzzle r'' c'' \<noteq> cell puzzle r' c'"
          using old w unfolding cellValid_iff[OF q(1,2)] by blast
        ultimately show ?thesis using same by simp
      qed
    qed
  qed
qed

lemma tryVals_Some:
  "tryVals f puzzle r c vs = Some s \<Longrightarrow>
   \<exists>v\<in>set vs. cellValid (puzzle[nat (r * 9 + c) := v]) r c \<and>
                f (puzzle[nat (r * 9 + c) := v]) = Some s"
  by (induction vs) (auto simp: Let_def split: if_splits option.splits)

lemma search_fills:
  "grid9 puzzle \<Longrightarrow> n \<le> 81 \<Longrightarrow> search n puzzle = Some s \<Longrightarrow> fills n puzzle s"
proof (induction n arbitrary: puzzle s)
  case 0
  then show ?case by (auto simp: fills_def split: if_splits)
next
  case (Suc n)
  let ?k = "80 - n"
  let ?r = "int ?k div 9" and ?c = "int ?k mod 9"
  from Suc.prems(2) have k: "?k < 81" "81 - Suc n = ?k" "81 - n = Suc ?k" by simp_all
  have rc: "?r \<in> {0..8}" "?c \<in> {0..8}" using k(1) by auto
  have idx: "nat (?r * 9 + ?c) = ?k" by (rule pos_idx)
  show ?case
  proof (cases "puzzle ! ?k = 0")
    case False
    with Suc.prems(3) have "search n puzzle = Some s" by (simp add: Let_def)
    then have f: "fills n puzzle s" using Suc.IH Suc.prems by simp
    have "s ! ?k \<noteq> 0" using f False k(1) by (auto simp: fills_def)
    moreover have "\<And>j. Suc ?k \<le> j \<Longrightarrow> j < 81 \<Longrightarrow> s ! j \<noteq> 0"
      using f unfolding fills_def k(3) by blast
    ultimately have "\<forall>j<81. ?k \<le> j \<longrightarrow> s ! j \<noteq> 0"
      by (metis Suc_leI le_neq_implies_less)
    then show ?thesis using f unfolding fills_def k(2) k(3) by auto
  next
    case True
    with Suc.prems(3) have "tryVals (search n) puzzle ?r ?c [1..9] = Some s"
      by (simp add: Let_def)
    from tryVals_Some[OF this] obtain v where v: "1 \<le> v" "v \<le> 9"
      and ok: "cellValid (puzzle[?k := v]) ?r ?c"
      and se: "search n (puzzle[?k := v]) = Some s"
      unfolding idx by auto
    let ?p1 = "puzzle[?k := v]"
    have g91: "grid9 ?p1" using Suc.prems(1) by (simp add: grid9_def)
    have f: "fills n ?p1 s" using Suc.IH[OF g91 _ se] Suc.prems(2) by simp
    have kl: "?k < length puzzle" using Suc.prems(1) k(1) by (simp add: grid9_def)
    have sk: "s ! ?k = v" using f kl k(1) unfolding fills_def k(3) by auto
    have other: "\<And>j. j \<noteq> ?k \<Longrightarrow> ?p1 ! j = puzzle ! j" by simp
    have "length s = length puzzle" using f by (simp add: fills_def)
    moreover have "\<forall>j<81. j < ?k \<or> puzzle ! j \<noteq> 0 \<longrightarrow> s ! j = puzzle ! j"
    proof (intro allI impI)
      fix j assume j: "j < 81" "j < ?k \<or> puzzle ! j \<noteq> 0"
      then have ne: "j \<noteq> ?k" using True by auto
      then have "j < Suc ?k \<or> ?p1 ! j \<noteq> 0" using j(2) by auto
      then have "s ! j = ?p1 ! j" using f j(1) unfolding fills_def k(3) by blast
      then show "s ! j = puzzle ! j" using ne by simp
    qed
    moreover have "\<forall>j<81. ?k \<le> j \<longrightarrow> s ! j \<noteq> 0"
    proof (intro allI impI)
      fix j assume j: "j < 81" "?k \<le> j"
      show "s ! j \<noteq> 0"
      proof (cases "j = ?k")
        case True then show ?thesis using sk v by simp
      next
        case False
        then have "Suc ?k \<le> j" using j(2) by simp
        then show ?thesis using f j(1) unfolding fills_def k(3) by blast
      qed
    qed
    moreover have "\<forall>j<81. s ! j = puzzle ! j \<or> s ! j \<in> {1..9}"
    proof (intro allI impI)
      fix j :: nat assume j: "j < 81"
      show "s ! j = puzzle ! j \<or> s ! j \<in> {1..9}"
      proof (cases "j = ?k")
        case True then show ?thesis using sk v by simp
      next
        case False
        have "s ! j = ?p1 ! j \<or> s ! j \<in> {1..9}" using f j unfolding fills_def by blast
        then show ?thesis using other[OF False] by simp
      qed
    qed
    moreover have "cellValid s 8 8" using f by (simp add: fills_def)
    moreover have "consistent puzzle \<longrightarrow> consistent s"
    proof
      assume "consistent puzzle"
      then have "consistent (puzzle[nat (?r * 9 + ?c) := v])"
        using consistent_update[OF Suc.prems(1) rc] v ok unfolding idx by simp
      then show "consistent s" using f unfolding idx fills_def by blast
    qed
    ultimately show ?thesis unfolding fills_def k(2) by blast
  qed
qed

lemma pigeon9:
  assumes "finite A" "card A = 9" "inj_on f A" "f ` A \<subseteq> {1..9::int}"
  shows "f ` A = {1..9}"
proof -
  have "card (f ` A) = 9" using assms(2,3) by (simp add: card_image)
  then show ?thesis using assms(4) by (intro card_subset_eq) simp_all
qed

lemma block_range: "br \<in> {0..2} \<Longrightarrow> r \<in> {3 * br..3 * br + 2} \<Longrightarrow> r \<in> {0..8} \<and> r div 3 = br"
  for br r :: int
  by auto

lemma filled_range_valid_solved:
  assumes fl: "filled puzzle" and rg: "cluesInRange puzzle" and con: "consistent puzzle"
  shows "solvedGrid puzzle"
proof -
  have val: "\<And>r c. r \<in> {0..8} \<Longrightarrow> c \<in> {0..8} \<Longrightarrow> cell puzzle r c \<in> {1..9}"
    using fl rg unfolding filled_def cluesInRange_def by blast
  have diff: "\<And>r c r' c'. r \<in> {0..8} \<Longrightarrow> c \<in> {0..8} \<Longrightarrow> r' \<in> {0..8} \<Longrightarrow> c' \<in> {0..8} \<Longrightarrow>
      sees r c r' c' \<Longrightarrow> cell puzzle r' c' \<noteq> cell puzzle r c"
  proof -
    fix r c r' c' :: int
    assume b: "r \<in> {0..8}" "c \<in> {0..8}" "r' \<in> {0..8}" "c' \<in> {0..8}" "sees r c r' c'"
    have "cellValid puzzle r c" using fl con b(1,2) unfolding filled_def consistent_def by blast
    then show "cell puzzle r' c' \<noteq> cell puzzle r c"
      using b unfolding cellValid_iff[OF b(1,2)] by blast
  qed
  have rows: "rowsOk puzzle"
    unfolding rowsOk_def
  proof (intro ballI)
    fix r v :: int assume r: "r \<in> {0..8}" and v: "v \<in> {1..9}"
    have inj: "inj_on (\<lambda>c. cell puzzle r c) {0..8}"
    proof (rule inj_onI)
      fix c c' assume c: "c \<in> {0..8}" "c' \<in> {0..8}" "cell puzzle r c = cell puzzle r c'"
      show "c = c'"
      proof (rule ccontr)
        assume "c \<noteq> c'"
        then have "sees r c r c'" by (simp add: sees_def)
        from diff[OF r c(1) r c(2) this] c(3) show False by simp
      qed
    qed
    have "(\<lambda>c. cell puzzle r c) ` {0..8} = {1..9}"
      using val[OF r] by (intro pigeon9 inj) auto
    with v have "v \<in> (\<lambda>c. cell puzzle r c) ` {0..8}" by simp
    then obtain c where c: "c \<in> {0..8}" "cell puzzle r c = v" by blast
    moreover have "\<forall>c'\<in>{0..8}. cell puzzle r c' = v \<longrightarrow> c' = c"
      using inj c by (auto dest: inj_onD)
    ultimately show "\<exists>c\<in>{0..8}. cell puzzle r c = v \<and> (\<forall>c'\<in>{0..8}. cell puzzle r c' = v \<longrightarrow> c' = c)"
      by blast
  qed
  have cols: "colsOk puzzle"
    unfolding colsOk_def
  proof (intro ballI)
    fix c v :: int assume c: "c \<in> {0..8}" and v: "v \<in> {1..9}"
    have inj: "inj_on (\<lambda>r. cell puzzle r c) {0..8}"
    proof (rule inj_onI)
      fix r r' assume r: "r \<in> {0..8}" "r' \<in> {0..8}" "cell puzzle r c = cell puzzle r' c"
      show "r = r'"
      proof (rule ccontr)
        assume "r \<noteq> r'"
        then have "sees r c r' c" by (auto simp: sees_def)
        from diff[OF r(1) c r(2) c this] r(3) show False by simp
      qed
    qed
    have "(\<lambda>r. cell puzzle r c) ` {0..8} = {1..9}"
      using val[OF _ c] by (intro pigeon9 inj) auto
    with v have "v \<in> (\<lambda>r. cell puzzle r c) ` {0..8}" by simp
    then obtain r where r: "r \<in> {0..8}" "cell puzzle r c = v" by blast
    moreover have "\<forall>r'\<in>{0..8}. cell puzzle r' c = v \<longrightarrow> r' = r"
      using inj r by (auto dest: inj_onD)
    ultimately show "\<exists>r\<in>{0..8}. cell puzzle r c = v \<and> (\<forall>r'\<in>{0..8}. cell puzzle r' c = v \<longrightarrow> r' = r)"
      by blast
  qed
  have blocks: "blocksOk puzzle"
    unfolding blocksOk_def
  proof (intro ballI)
    fix br bc v :: int assume br: "br \<in> {0..2}" and bc: "bc \<in> {0..2}" and v: "v \<in> {1..9}"
    let ?A = "{3 * br..3 * br + 2} \<times> {3 * bc..3 * bc + 2}"
    let ?f = "\<lambda>p. cell puzzle (fst p) (snd p)"
    have inj: "inj_on ?f ?A"
    proof (rule inj_onI)
      fix p q assume p: "p \<in> ?A" and q: "q \<in> ?A" and e: "?f p = ?f q"
      obtain r c r' c' where pq: "p = (r, c)" "q = (r', c')" by (cases p, cases q) auto
      have b: "r \<in> {0..8}" "r div 3 = br" "c \<in> {0..8}" "c div 3 = bc"
              "r' \<in> {0..8}" "r' div 3 = br" "c' \<in> {0..8}" "c' div 3 = bc"
        using p q pq block_range[OF br] block_range[OF bc] by auto
      show "p = q"
      proof (rule ccontr)
        assume "p \<noteq> q"
        then have "sees r c r' c'" using pq b by (auto simp: sees_def)
        from diff[OF b(1) b(3) b(5) b(7) this] e pq show False by simp
      qed
    qed
    have card: "card ?A = 9" by (simp add: card_cartesian_product)
    have "?f ` ?A \<subseteq> {1..9}"
    proof
      fix x assume "x \<in> ?f ` ?A"
      then obtain r c where "r \<in> {3 * br..3 * br + 2}" "c \<in> {3 * bc..3 * bc + 2}"
        "x = cell puzzle r c" by auto
      then show "x \<in> {1..9}" using val block_range[OF br] block_range[OF bc] by blast
    qed
    then have "?f ` ?A = {1..9}" using inj card by (intro pigeon9) simp_all
    with v have "v \<in> ?f ` ?A" by simp
    then obtain p where p: "p \<in> ?A" "?f p = v" by blast
    obtain r c where rc: "p = (r, c)" by (cases p)
    have u: "\<forall>r'\<in>{3 * br..3 * br + 2}. \<forall>c'\<in>{3 * bc..3 * bc + 2}.
             cell puzzle r' c' = v \<longrightarrow> r' = r \<and> c' = c"
    proof (intro ballI impI)
      fix r' c' assume q: "r' \<in> {3 * br..3 * br + 2}" "c' \<in> {3 * bc..3 * bc + 2}"
        "cell puzzle r' c' = v"
      then have "(r', c') \<in> ?A" "?f (r', c') = ?f p" using p by simp_all
      from inj_onD[OF inj this(2) this(1) p(1)] rc show "r' = r \<and> c' = c" by simp
    qed
    show "\<exists>r\<in>{3 * br..3 * br + 2}. \<exists>c\<in>{3 * bc..3 * bc + 2}. cell puzzle r c = v \<and>
          (\<forall>r'\<in>{3 * br..3 * br + 2}. \<forall>c'\<in>{3 * bc..3 * bc + 2}.
             cell puzzle r' c' = v \<longrightarrow> r' = r \<and> c' = c)"
      using p rc u by (intro bexI[of _ r] bexI[of _ c]) auto
  qed
  from rows cols blocks show ?thesis by (simp add: solvedGrid_def)
qed

lemma solved_cell_range:
  assumes "rowsOk puzzle" "r \<in> {0..8}" "c \<in> {0..8}"
  shows "cell puzzle r c \<in> {1..9}"
proof -
  let ?B = "{c \<in> {0..8}. cell puzzle r c \<in> {1..9}}"
  have fin: "finite ?B" by (rule finite_subset[of _ "{0..8}"]) auto
  have "{1..9} \<subseteq> (\<lambda>c. cell puzzle r c) ` ?B"
  proof
    fix v :: int assume v: "v \<in> {1..9}"
    with assms(1,2) obtain c where "c \<in> {0..8}" "cell puzzle r c = v"
      unfolding rowsOk_def by blast
    with v show "v \<in> (\<lambda>c. cell puzzle r c) ` ?B" by blast
  qed
  then have "card {1..9::int} \<le> card ((\<lambda>c. cell puzzle r c) ` ?B)"
    using fin by (intro card_mono) simp_all
  also have "\<dots> \<le> card ?B" by (rule card_image_le[OF fin])
  finally have "card {0..8::int} \<le> card ?B" by simp
  then have "?B = {0..8}" by (intro card_seteq) auto
  with assms(3) show ?thesis by blast
qed

lemma solved_cellValid:
  assumes s: "solvedGrid puzzle" and r: "r \<in> {0..8}" and c: "c \<in> {0..8}"
  shows "cellValid puzzle r c"
proof -
  from s have rows: "rowsOk puzzle" and cols: "colsOk puzzle" and blocks: "blocksOk puzzle"
    by (simp_all add: solvedGrid_def)
  have v: "cell puzzle r c \<in> {1..9}" by (rule solved_cell_range[OF rows r c])
  have "\<not> rowDupl puzzle r c"
  proof
    assume "rowDupl puzzle r c"
    then obtain i where i: "i \<in> {0..8}" "i \<noteq> c" "cell puzzle r i = cell puzzle r c"
      by (auto simp: rowDupl_def)
    from rows r v obtain c0 where "\<forall>c'\<in>{0..8}. cell puzzle r c' = cell puzzle r c \<longrightarrow> c' = c0"
      unfolding rowsOk_def by blast
    with i c show False by blast
  qed
  moreover have "\<not> colDupl puzzle r c"
  proof
    assume "colDupl puzzle r c"
    then obtain i where i: "i \<in> {0..8}" "i \<noteq> r" "cell puzzle i c = cell puzzle r c"
      by (auto simp: colDupl_def)
    from cols c v obtain r0 where "\<forall>r'\<in>{0..8}. cell puzzle r' c = cell puzzle r c \<longrightarrow> r' = r0"
      unfolding colsOk_def by blast
    with i r show False by blast
  qed
  moreover have "\<not> blockDupl puzzle r c"
  proof
    assume "blockDupl puzzle r c"
    then obtain row col where rc: "row \<in> blockOf r" "col \<in> blockOf c"
      "row \<noteq> r \<or> col \<noteq> c" "cell puzzle row col = cell puzzle r c"
      by (auto simp: blockDupl_def)
    have b: "r div 3 \<in> {0..2}" "c div 3 \<in> {0..2}" using r c by auto
    from blocks b v obtain r0 c0 where
      "\<forall>r'\<in>{3 * (r div 3)..3 * (r div 3) + 2}. \<forall>c'\<in>{3 * (c div 3)..3 * (c div 3) + 2}.
         cell puzzle r' c' = cell puzzle r c \<longrightarrow> r' = r0 \<and> c' = c0"
      unfolding blocksOk_def by blast
    then have u: "\<forall>r'\<in>blockOf r. \<forall>c'\<in>blockOf c.
         cell puzzle r' c' = cell puzzle r c \<longrightarrow> r' = r0 \<and> c' = c0"
      by (simp add: blockOf_def)
    from u rc(1,2,4) have "row = r0 \<and> col = c0" by blast
    moreover from u blockOf_self[of r] blockOf_self[of c] have "r = r0 \<and> c = c0" by blast
    ultimately show False using rc(3) by simp
  qed
  ultimately show ?thesis by (simp add: cellValid_def)
qed

lemma solved_props:
  assumes "solvedGrid puzzle"
  shows "filled puzzle" "cluesInRange puzzle" "consistent puzzle"
proof -
  from assms have rows: "rowsOk puzzle" by (simp add: solvedGrid_def)
  have v: "\<And>r c. r \<in> {0..8} \<Longrightarrow> c \<in> {0..8} \<Longrightarrow> cell puzzle r c \<in> {1..9}"
    by (rule solved_cell_range[OF rows])
  show "filled puzzle" unfolding filled_def using v by fastforce
  show "cluesInRange puzzle" unfolding cluesInRange_def using v by blast
  show "consistent puzzle" unfolding consistent_def using solved_cellValid[OF assms] by blast
qed

lemma filled_nth: "filled puzzle \<longleftrightarrow> (\<forall>j<81. puzzle ! j \<noteq> 0)"
  unfolding filled_def cell_def by (rule cells_all)

lemma cluesInRange_nth:
  "cluesInRange puzzle \<longleftrightarrow> (\<forall>j<81. puzzle ! j \<noteq> 0 \<longrightarrow> puzzle ! j \<in> {1..9})"
  unfolding cluesInRange_def cell_def by (rule cells_all)

lemma completes_nth:
  "completes s puzzle \<longleftrightarrow> (\<forall>j<81. puzzle ! j \<noteq> 0 \<longrightarrow> s ! j = puzzle ! j)"
  unfolding completes_def cell_def by (rule cells_all)

lemma search_filled:
  "\<forall>j<81. puzzle ! j \<noteq> 0 \<Longrightarrow> n \<le> 81 \<Longrightarrow>
   search n puzzle = (if cellValid puzzle 8 8 then Some puzzle else None)"
proof (induction n)
  case 0
  show ?case by simp
next
  case (Suc n)
  then have "puzzle ! (80 - n) \<noteq> 0" by simp
  then show ?case using Suc by (simp add: Let_def)
qed

lemma search_true_solved:
  assumes g9: "grid9 puzzle" and rg: "cluesInRange puzzle" and con: "consistent puzzle"
    and se: "search 81 puzzle = Some s"
  shows "grid9 s" "filled s" "solvedGrid s"
proof -
  have f: "fills 81 puzzle s" using search_fills[OF g9 _ se] by simp
  show g9s: "grid9 s" using f g9 by (simp add: fills_def grid9_def)
  have nz: "\<forall>j<81. s ! j \<noteq> 0" using f by (simp add: fills_def)
  then show fl: "filled s" by (simp add: filled_nth)
  have "\<forall>j<81. s ! j \<in> {1..9}"
  proof (intro allI impI)
    fix j :: nat assume j: "j < 81"
    from f j have "s ! j = puzzle ! j \<or> s ! j \<in> {1..9}" unfolding fills_def by blast
    then show "s ! j \<in> {1..9}"
    proof
      assume e: "s ! j = puzzle ! j"
      with nz j have "puzzle ! j \<noteq> 0" by auto
      with rg j e show ?thesis unfolding cluesInRange_nth by auto
    qed simp
  qed
  then have "cluesInRange s" by (simp add: cluesInRange_nth)
  moreover have "consistent s" using f con by (simp add: fills_def)
  ultimately show "solvedGrid s" using fl by (intro filled_range_valid_solved)
qed

section \<open>The search finds the first completion\<close>

lemma lexLe_refl: "lexLe xs xs"
  by (induction xs) auto

lemma lexLe_first_diff:
  "length xs = length ys \<Longrightarrow> k < length xs \<Longrightarrow> \<forall>j<k. xs ! j = ys ! j \<Longrightarrow>
   xs ! k < ys ! k \<Longrightarrow> lexLe xs ys"
proof (induction xs ys arbitrary: k rule: lexLe.induct)
  case (3 x xs y ys)
  show ?case
  proof (cases k)
    case 0
    with 3 show ?thesis by simp
  next
    case (Suc m)
    with "3.prems" have "x = y" by auto
    moreover have "lexLe xs ys"
    proof (rule "3.IH"[of m])
      show "length xs = length ys" using "3.prems" by simp
      show "m < length xs" using "3.prems" Suc by simp
      show "\<forall>j<m. xs ! j = ys ! j"
      proof (intro allI impI)
        fix j assume "j < m"
        then have "Suc j < k" using Suc by simp
        with "3.prems"(3) have "(x # xs) ! Suc j = (y # ys) ! Suc j" by blast
        then show "xs ! j = ys ! j" by simp
      qed
      show "xs ! m < ys ! m" using "3.prems"(4) Suc by simp
    qed
    ultimately show ?thesis by simp
  qed
qed simp_all

lemma tryVals_complete:
  assumes g9: "grid9 puzzle" and n: "n < 81" and k: "k = 80 - n"
    and r: "r = int k div 9" and c: "c = int k mod 9"
    and z: "puzzle ! k = 0"
    and S9: "grid9 S" and Scon: "consistent S" and Srange: "\<forall>j<81. S ! j \<in> {1..9}"
    and agree: "\<forall>j<81. j < k \<or> puzzle ! j \<noteq> 0 \<longrightarrow> S ! j = puzzle ! j"
    and IH: "\<And>p. grid9 p \<Longrightarrow> \<forall>j<81. j < Suc k \<or> p ! j \<noteq> 0 \<longrightarrow> S ! j = p ! j \<Longrightarrow>
               \<exists>s. search n p = Some s \<and> lexLe s S"
    and i: "1 \<le> i" "i \<le> S ! k"
  shows "\<exists>s. tryVals (search n) puzzle r c [i..9] = Some s \<and> lexLe s S"
  using i
proof (induction "nat (S ! k - i)" arbitrary: i)
  case 0
  then have iv: "i = S ! k" by simp
  have k81: "k < 81" using k by simp
  have rc: "r \<in> {0..8}" "c \<in> {0..8}" using r c k81 by auto
  have idx: "nat (r * 9 + c) = k" unfolding r c by (rule pos_idx)
  have i9: "i \<le> 9" using Srange k81 iv by auto
  have up: "[i..9] = i # [i + 1..9]" using i9 by (simp add: upto_rec1)
  let ?p1 = "puzzle[k := i]"
  have g91: "grid9 ?p1" using g9 by (simp add: grid9_def)
  have kl: "k < length puzzle" using g9 k81 by (simp add: grid9_def)
  have Sv: "cellValid S r c"
    using Scon rc Srange k81 idx unfolding consistent_def cell_def by force
  have ok: "cellValid ?p1 r c"
    unfolding cellValid_iff[OF rc]
  proof (intro ballI impI)
    fix r' c' assume q: "r' \<in> {0..8}" "c' \<in> {0..8}" "sees r c r' c'"
    then have ne: "\<not> (r' = r \<and> c' = c)" by (auto simp: sees_def)
    have cur: "cell ?p1 r c = i" using cell_update[OF g9 rc rc, of i] idx by simp
    have oth: "cell ?p1 r' c' = cell puzzle r' c'"
      using cell_update[OF g9 rc q(1,2), of i] idx ne by auto
    have Sne: "cell S r' c' \<noteq> cell S r c"
      using Sv q unfolding cellValid_iff[OF rc] by blast
    have Sk: "cell S r c = i" using iv idx by (simp add: cell_def)
    show "cell ?p1 r' c' \<noteq> cell ?p1 r c"
    proof (cases "cell puzzle r' c' = 0")
      case True
      then show ?thesis using oth cur "0.prems"(1) by simp
    next
      case False
      have "nat (r' * 9 + c') < 81" using idx_lt[OF q(1,2)] .
      with False agree have "cell S r' c' = cell puzzle r' c'" by (simp add: cell_def)
      then show ?thesis using Sne Sk oth cur by simp
    qed
  qed
  have "\<forall>j<81. j < Suc k \<or> ?p1 ! j \<noteq> 0 \<longrightarrow> S ! j = ?p1 ! j"
  proof (intro allI impI)
    fix j assume j: "j < 81" "j < Suc k \<or> ?p1 ! j \<noteq> 0"
    show "S ! j = ?p1 ! j"
    proof (cases "j = k")
      case True then show ?thesis using iv kl by simp
    next
      case False
      then have "j < k \<or> puzzle ! j \<noteq> 0" using j(2) by auto
      with agree j(1) have "S ! j = puzzle ! j" by blast
      then show ?thesis using False by simp
    qed
  qed
  from IH[OF g91 this] obtain s where "search n ?p1 = Some s" "lexLe s S" by blast
  then show ?case using ok unfolding up by (simp add: idx)
next
  case (Suc m)
  then have lt: "i < S ! k" by simp
  have k81: "k < 81" using k by simp
  have rc: "r \<in> {0..8}" "c \<in> {0..8}" using r c k81 by auto
  have idx: "nat (r * 9 + c) = k" unfolding r c by (rule pos_idx)
  have i9: "i \<le> 9" using Srange k81 lt by auto
  have up: "[i..9] = i # [i + 1..9]" using i9 by (simp add: upto_rec1)
  let ?p1 = "puzzle[k := i]"
  have g91: "grid9 ?p1" using g9 by (simp add: grid9_def)
  have kl: "k < length puzzle" using g9 k81 by (simp add: grid9_def)
  have rest: "\<exists>s. tryVals (search n) puzzle r c [i + 1..9] = Some s \<and> lexLe s S"
    using Suc.hyps(1)[of "i + 1"] Suc.hyps(2) Suc.prems lt by simp
  show ?case
  proof (cases "cellValid ?p1 r c")
    case False
    then show ?thesis using rest unfolding up by (simp add: idx)
  next
    case True
    show ?thesis
    proof (cases "search n ?p1")
      case None
      then show ?thesis using rest True unfolding up by (simp add: idx)
    next
      case (Some s)
      have f: "fills n ?p1 s" using search_fills[OF g91 _ Some] n by simp
      have e: "81 - n = Suc k" using k n by simp
      have keep: "\<forall>j<81. j < Suc k \<longrightarrow> s ! j = ?p1 ! j"
        using f unfolding fills_def e by blast
      have "s ! k = i" using keep k81 kl by simp
      moreover have "\<forall>j<k. s ! j = S ! j"
      proof (intro allI impI)
        fix j assume j: "j < k"
        then have "s ! j = ?p1 ! j" using keep k81 by simp
        also have "\<dots> = puzzle ! j" using j by simp
        also have "\<dots> = S ! j" using agree j k81 by force
        finally show "s ! j = S ! j" .
      qed
      moreover have "length s = length S" using f g9 S9 by (simp add: fills_def grid9_def)
      ultimately have "lexLe s S"
        using lt k81 S9 by (intro lexLe_first_diff[of s S k]) (simp_all add: grid9_def)
      then show ?thesis using Some True unfolding up by (simp add: idx)
    qed
  qed
qed

lemma search_Suc:
  "search (Suc n) puzzle =
     (if puzzle ! (80 - n) \<noteq> 0 then search n puzzle
      else tryVals (search n) puzzle (int (80 - n) div 9) (int (80 - n) mod 9) [1..9])"
  by (simp only: search.simps Let_def)

lemma search_complete:
  assumes S9: "grid9 S" and Scon: "consistent S" and Srange: "\<forall>j<81. S ! j \<in> {1..9}"
  shows "grid9 puzzle \<Longrightarrow> n \<le> 81 \<Longrightarrow>
         \<forall>j<81. j < 81 - n \<or> puzzle ! j \<noteq> 0 \<longrightarrow> S ! j = puzzle ! j \<Longrightarrow>
         \<exists>s. search n puzzle = Some s \<and> lexLe s S"
proof (induction n arbitrary: puzzle)
  case 0
  then have "\<forall>j<81. S ! j = puzzle ! j" by simp
  then have "puzzle = S" using S9 "0.prems"(1) by (intro nth_equalityI) (simp_all add: grid9_def)
  moreover have "cellValid S 8 8"
  proof -
    have "S ! 80 \<in> {1..9}" using Srange by simp
    then have "cell S 8 8 \<noteq> 0" by (simp add: cell_def)
    then show ?thesis using Scon by (simp add: consistent_def)
  qed
  ultimately show ?case by (simp add: lexLe_refl)
next
  case (Suc n)
  let ?k = "80 - n"
  from Suc.prems(2) have k: "?k < 81" "81 - Suc n = ?k" "81 - n = Suc ?k" by simp_all
  have agree: "\<forall>j<81. j < ?k \<or> puzzle ! j \<noteq> 0 \<longrightarrow> S ! j = puzzle ! j"
    using Suc.prems(3) unfolding k(2) .
  have IH: "\<exists>s. search n p = Some s \<and> lexLe s S"
    if a: "grid9 p" and b: "\<forall>j<81. j < Suc ?k \<or> p ! j \<noteq> 0 \<longrightarrow> S ! j = p ! j" for p
  proof -
    have n81: "n \<le> 81" using Suc.prems(2) by simp
    from b have "\<forall>j<81. j < 81 - n \<or> p ! j \<noteq> 0 \<longrightarrow> S ! j = p ! j" unfolding k(3) .
    from Suc.IH[OF a n81 this] show ?thesis .
  qed
  show ?case
  proof (cases "puzzle ! ?k = 0")
    case False
    have "\<forall>j<81. j < Suc ?k \<or> puzzle ! j \<noteq> 0 \<longrightarrow> S ! j = puzzle ! j"
    proof (intro allI impI)
      fix j assume j: "j < 81" "j < Suc ?k \<or> puzzle ! j \<noteq> 0"
      then have "j < ?k \<or> puzzle ! j \<noteq> 0" using False by (cases "j = ?k") auto
      with agree j(1) show "S ! j = puzzle ! j" by blast
    qed
    from IH[OF Suc.prems(1) this] show ?thesis unfolding search_Suc using False by simp
  next
    case True
    have i: "1 \<le> (1::int)" "1 \<le> S ! ?k" using Srange k(1) by auto
    have n80: "n < 81" using Suc.prems(2) by simp
    have tv: "\<exists>s. tryVals (search n) puzzle (int ?k div 9) (int ?k mod 9) [1..9] = Some s \<and> lexLe s S"
    proof (rule tryVals_complete[where k = "?k" and n = n and S = S and i = 1])
      show "grid9 puzzle" by (rule Suc.prems(1))
      show "n < 81" by (rule n80)
      show "puzzle ! ?k = 0" by (rule True)
      show "grid9 S" by (rule S9)
      show "consistent S" by (rule Scon)
      show "\<forall>j<81. S ! j \<in> {1..9}" by (rule Srange)
      show "\<forall>j<81. j < ?k \<or> puzzle ! j \<noteq> 0 \<longrightarrow> S ! j = puzzle ! j" by (rule agree)
      show "\<exists>s. search n p = Some s \<and> lexLe s S"
        if "grid9 p" "\<forall>j<81. j < Suc ?k \<or> p ! j \<noteq> 0 \<longrightarrow> S ! j = p ! j" for p
        using that by (rule IH)
      show "1 \<le> (1::int)" by simp
      show "1 \<le> S ! ?k" by (rule i(2))
    qed (rule refl)+
    have "search (Suc n) puzzle =
        tryVals (search n) puzzle (int ?k div 9) (int ?k mod 9) [1..9]"
      unfolding search_Suc using True by (simp only: simp_thms if_False)
    then show ?thesis using tv by (simp only:)
  qed
qed

section \<open>The invariant of the calls\<close>

lemma attempt_result:
  assumes g9: "grid9 puzzle" and k: "k \<le> 81"
    and at: "attempt puzzle (int k div 9) (int k mod 9) = Some (s, puzzle2)"
  shows "grid9 puzzle2" "consistent puzzle \<Longrightarrow> consistent puzzle2" "\<not> s \<Longrightarrow> puzzle2 = puzzle"
proof -
  have e: "81 - (81 - k) = k" using k by simp
  from attempt_search[OF g9, of "81 - k"] at
  have o: "outcome puzzle (search (81 - k) puzzle) = (s, puzzle2)" unfolding e by simp
  show "grid9 puzzle2"
  proof (cases "search (81 - k) puzzle")
    case None with o g9 show ?thesis by (simp add: outcome_def)
  next
    case (Some s')
    with o have "puzzle2 = s'" by (simp add: outcome_def)
    with search_fills[OF g9 _ Some] g9 show ?thesis by (simp add: fills_def grid9_def)
  qed
  show "consistent puzzle2" if "consistent puzzle"
  proof (cases "search (81 - k) puzzle")
    case None with o that show ?thesis by (simp add: outcome_def)
  next
    case (Some s')
    with o have "puzzle2 = s'" by (simp add: outcome_def)
    with search_fills[OF g9 _ Some] that show ?thesis by (simp add: fills_def)
  qed
  show "puzzle2 = puzzle" if "\<not> s"
    using o that by (auto simp: outcome_def split: option.splits)
qed

lemma inBounds_pos:
  assumes "k \<le> 81" "inBounds puzzle (int k div 9) (int k mod 9)"
  shows "k < 81"
proof (rule ccontr)
  assume "\<not> k < 81"
  with assms(1) have "k = 81" by simp
  with assms(2) show False by (simp add: inBounds_def)
qed

lemma reach_frameOk:
  assumes g9: "grid9 puzzle0" and con: "consistent puzzle0"
  shows "reach puzzle0 fr \<Longrightarrow> frameOk fr"
proof (induction rule: reach.induct)
  case reach_solve
  have "(0::int) = int 0 div 9 \<and> (0::int) = int 0 mod 9" by simp
  then show ?case using g9 con by (auto intro: exI[of _ 0])
next
  case (reach_unknown puzzle r c)
  then obtain k where k: "k \<le> 81" "r = int k div 9" "c = int k mod 9" by auto
  have k81: "k < 81" using inBounds_pos[OF k(1)] reach_unknown(2) k by simp
  have "puzzle ! nat (r * 9 + c) = 0"
    using reach_unknown(2,3) by (simp add: get_def)
  then have "puzzle[nat (r * 9 + c) := 0] = puzzle" by (metis list_update_id)
  then show ?case using reach_unknown(4) k k81 by auto
next
  case (reach_given puzzle r c x r1 c1)
  then obtain k where k: "k \<le> 81" "r = int k div 9" "c = int k mod 9" by auto
  have k81: "k < 81" using inBounds_pos[OF k(1)] reach_given(2) k by simp
  have "r1 = int (Suc k) div 9 \<and> c1 = int (Suc k) mod 9"
    using reach_given(5) nextPos_pos[of k] k by simp
  then show ?case using reach_given(6) k81 by (auto intro: exI[of _ "Suc k"])
next
  case (reach_descend puzzle r c i solved puzzle1 r1 c1)
  then obtain k where k: "k < 81" "r = int k div 9" "c = int k mod 9" by auto
  have rc: "r \<in> {0..8}" "c \<in> {0..8}" using k by auto
  have ib: "inBounds puzzle r c" "inBounds puzzle1 r c" using rc by (simp_all add: inBounds_def)
  have g9p: "grid9 puzzle" and i1: "1 \<le> i"
    and con0: "consistent (puzzle[nat (r * 9 + c) := 0])"
    using reach_descend(7,3) by simp_all
  have p1: "puzzle1 = puzzle[nat (r * 9 + c) := 0, nat (r * 9 + c) := i]"
    using reach_descend(4) by (simp add: set_at_eq[OF ib(1)])
  have ok: "cellValid puzzle1 r c" using reach_descend(5) by (simp add: isValid_eq[OF ib(2)])
  have g90: "grid9 (puzzle[nat (r * 9 + c) := 0])" using g9p by (simp add: grid9_def)
  have "consistent puzzle1"
    unfolding p1 using i1 ok by (intro consistent_update[OF g90 rc _ con0]) (simp_all add: p1)
  moreover have "grid9 puzzle1" using g9p p1 by (simp add: grid9_def)
  moreover have "r1 = int (Suc k) div 9 \<and> c1 = int (Suc k) mod 9"
    using reach_descend(6) nextPos_pos[of k] k by simp
  ultimately show ?case using k(1) by (auto intro: exI[of _ "Suc k"])
next
  case (reach_return puzzle r c i solved puzzle1 r1 c1 s puzzle2 r2 c2)
  then obtain k where k: "k < 81" "r = int k div 9" "c = int k mod 9" by auto
  have rc: "r \<in> {0..8}" "c \<in> {0..8}" using k by auto
  have ib: "inBounds puzzle r c" "inBounds puzzle1 r c" using rc by (simp_all add: inBounds_def)
  have g9p: "grid9 puzzle" and i1: "1 \<le> i"
    and con0: "consistent (puzzle[nat (r * 9 + c) := 0])"
    using reach_return(9,3) by simp_all
  have p1: "puzzle1 = puzzle[nat (r * 9 + c) := 0, nat (r * 9 + c) := i]"
    using reach_return(4) by (simp add: set_at_eq[OF ib(1)])
  have ok: "cellValid puzzle1 r c" using reach_return(5) by (simp add: isValid_eq[OF ib(2)])
  have g90: "grid9 (puzzle[nat (r * 9 + c) := 0])" using g9p by (simp add: grid9_def)
  have con1: "consistent puzzle1"
    unfolding p1 using i1 ok by (intro consistent_update[OF g90 rc _ con0]) (simp_all add: p1)
  have g91: "grid9 puzzle1" using g9p p1 by (simp add: grid9_def)
  have nx: "r1 = int (Suc k) div 9" "c1 = int (Suc k) mod 9"
    using reach_return(6) nextPos_pos[of k] k by simp_all
  have sk: "Suc k \<le> 81" using k(1) by simp
  have at: "attempt puzzle1 (int (Suc k) div 9) (int (Suc k) mod 9) = Some (s, puzzle2)"
    using reach_return(7) nx by simp
  note res = attempt_result[OF g91 sk at]
  have same_pos: "r2 = r" "c2 = c"
    using reach_return(8,6) prevPos_nextPos[OF ib(1)] by (metis prod.inject)+
  have "if s then consistent puzzle2 else consistent (puzzle2[nat (r * 9 + c) := 0])"
  proof (cases s)
    case True then show ?thesis using res(2)[OF con1] by simp
  next
    case False
    with res(3) have "puzzle2 = puzzle1" by simp
    then show ?thesis using False con0 p1 by simp
  qed
  then show ?case using res(1) i1 k reach_return(3) same_pos by auto
next
  case (reach_invalid puzzle r c i solved puzzle1)
  then obtain k where k: "k < 81" "r = int k div 9" "c = int k mod 9" by auto
  have rc: "r \<in> {0..8}" "c \<in> {0..8}" using k by auto
  have ib: "inBounds puzzle r c" using rc by (simp add: inBounds_def)
  have p1: "puzzle1 = puzzle[nat (r * 9 + c) := i]"
    using reach_invalid(4) by (simp add: set_at_eq[OF ib])
  then show ?case using reach_invalid(6,3) k by (auto simp: grid9_def)
next
  case (reach_solved puzzle r c i solved)
  then show ?case by auto
qed

lemma attempt_keeps:
  assumes g9: "grid9 puzzle" and k: "k \<le> 81"
    and at: "attempt puzzle (int k div 9) (int k mod 9) = Some (s, puzzle2)"
  shows "completes puzzle2 puzzle"
proof -
  have e: "81 - (81 - k) = k" using k by simp
  from attempt_search[OF g9, of "81 - k"] at
  have o: "outcome puzzle (search (81 - k) puzzle) = (s, puzzle2)" unfolding e by simp
  show ?thesis
  proof (cases "search (81 - k) puzzle")
    case None with o show ?thesis by (simp add: outcome_def completes_def)
  next
    case (Some s')
    with o have "puzzle2 = s'" by (simp add: outcome_def)
    with search_fills[OF g9 _ Some] show ?thesis
      unfolding completes_nth fills_def by simp
  qed
qed

lemma reach_frameKeeps:
  assumes g9: "grid9 puzzle0"
  shows "reach puzzle0 fr \<Longrightarrow> frameKeeps puzzle0 fr"
proof (induction rule: reach.induct)
  case reach_solve
  have "(0::int) = int 0 div 9 \<and> (0::int) = int 0 mod 9 \<and>
        (\<forall>j<81. 0 \<le> j \<longrightarrow> puzzle0 ! j = puzzle0 ! j)" by simp
  then have "\<exists>k\<le>81. (0::int) = int k div 9 \<and> (0::int) = int k mod 9 \<and>
        (\<forall>j<81. k \<le> j \<longrightarrow> puzzle0 ! j = puzzle0 ! j)" by (intro exI[of _ 0]) simp
  then show ?case using g9 by (simp add: completes_def)
next
  case (reach_unknown puzzle r c)
  then obtain k where k: "k \<le> 81" "r = int k div 9" "c = int k mod 9"
    and same: "\<forall>j<81. k \<le> j \<longrightarrow> puzzle ! j = puzzle0 ! j" by auto
  have k81: "k < 81" using inBounds_pos[OF k(1)] reach_unknown(2) k by simp
  have "puzzle ! nat (r * 9 + c) = 0" using reach_unknown(2,3) by (simp add: get_def)
  then have "puzzle ! k = 0" unfolding k(2,3) pos_idx .
  then have "puzzle0 ! k = 0" using same k81 by simp
  moreover have "\<forall>j<81. k < j \<longrightarrow> puzzle ! j = puzzle0 ! j" using same by simp
  ultimately have "\<exists>k'<81. r = int k' div 9 \<and> c = int k' mod 9 \<and> puzzle0 ! k' = 0 \<and>
        (False \<or> (\<forall>j<81. k' < j \<longrightarrow> puzzle ! j = puzzle0 ! j))"
    using k k81 by (intro exI[of _ k]) simp
  then show ?case using reach_unknown(4) by simp
next
  case (reach_given puzzle r c x r1 c1)
  then obtain k where k: "k \<le> 81" "r = int k div 9" "c = int k mod 9"
    and same: "\<forall>j<81. k \<le> j \<longrightarrow> puzzle ! j = puzzle0 ! j" by auto
  have k81: "k < 81" using inBounds_pos[OF k(1)] reach_given(2) k by simp
  have "Suc k \<le> 81 \<and> r1 = int (Suc k) div 9 \<and> c1 = int (Suc k) mod 9 \<and>
        (\<forall>j<81. Suc k \<le> j \<longrightarrow> puzzle ! j = puzzle0 ! j)"
    using reach_given(5) nextPos_pos[of k] k same k81 by simp
  then have "\<exists>k'\<le>81. r1 = int k' div 9 \<and> c1 = int k' mod 9 \<and>
        (\<forall>j<81. k' \<le> j \<longrightarrow> puzzle ! j = puzzle0 ! j)" by (intro exI[of _ "Suc k"])
  then show ?case using reach_given(6) by simp
next
  case (reach_descend puzzle r c i solved puzzle1 r1 c1)
  then obtain k where k: "k < 81" "r = int k div 9" "c = int k mod 9" "puzzle0 ! k = 0"
    and same: "\<forall>j<81. k < j \<longrightarrow> puzzle ! j = puzzle0 ! j" by auto
  have ib: "inBounds puzzle r c" using k by (auto simp: inBounds_def)
  have idx: "nat (r * 9 + c) = k" unfolding k(2,3) by (rule pos_idx)
  have p1: "puzzle1 = puzzle[k := i]"
    using reach_descend(4) by (simp add: set_at_eq[OF ib] idx)
  have g9p: "grid9 puzzle" and comp: "completes puzzle puzzle0" using reach_descend(7) by simp_all
  have "completes puzzle1 puzzle0"
    using comp k(4) unfolding completes_nth p1 by (metis nth_list_update_neq)
  moreover have "grid9 puzzle1" using g9p p1 by (simp add: grid9_def)
  moreover have "Suc k \<le> 81 \<and> r1 = int (Suc k) div 9 \<and> c1 = int (Suc k) mod 9 \<and>
        (\<forall>j<81. Suc k \<le> j \<longrightarrow> puzzle1 ! j = puzzle0 ! j)"
    using reach_descend(6) nextPos_pos[of k] k same p1 by simp
  then have "\<exists>k'\<le>81. r1 = int k' div 9 \<and> c1 = int k' mod 9 \<and>
        (\<forall>j<81. k' \<le> j \<longrightarrow> puzzle1 ! j = puzzle0 ! j)" by (intro exI[of _ "Suc k"])
  ultimately show ?case by simp
next
  case (reach_return puzzle r c i solved puzzle1 r1 c1 s puzzle2 r2 c2)
  then obtain k where k: "k < 81" "r = int k div 9" "c = int k mod 9" "puzzle0 ! k = 0"
    and same: "\<forall>j<81. k < j \<longrightarrow> puzzle ! j = puzzle0 ! j" by auto
  have ib: "inBounds puzzle r c" using k by (auto simp: inBounds_def)
  have idx: "nat (r * 9 + c) = k" unfolding k(2,3) by (rule pos_idx)
  have p1: "puzzle1 = puzzle[k := i]"
    using reach_return(4) by (simp add: set_at_eq[OF ib] idx)
  have g9p: "grid9 puzzle" and comp: "completes puzzle puzzle0" using reach_return(9) by simp_all
  have comp1: "completes puzzle1 puzzle0"
    using comp k(4) unfolding completes_nth p1 by (metis nth_list_update_neq)
  have g91: "grid9 puzzle1" using g9p p1 by (simp add: grid9_def)
  have nx: "r1 = int (Suc k) div 9" "c1 = int (Suc k) mod 9"
    using reach_return(6) nextPos_pos[of k] k by simp_all
  have sk: "Suc k \<le> 81" using k(1) by simp
  have at: "attempt puzzle1 (int (Suc k) div 9) (int (Suc k) mod 9) = Some (s, puzzle2)"
    using reach_return(7) nx by simp
  have same_pos: "r2 = r" "c2 = c"
    using reach_return(8,6) prevPos_nextPos[OF ib] by (metis prod.inject)+
  have comp2: "completes puzzle2 puzzle0"
    unfolding completes_nth
  proof (intro allI impI)
    fix j :: nat assume j: "j < 81" "puzzle0 ! j \<noteq> 0"
    then have "puzzle1 ! j = puzzle0 ! j" using comp1 unfolding completes_nth by blast
    moreover from this j have "puzzle2 ! j = puzzle1 ! j"
      using attempt_keeps[OF g91 sk at] unfolding completes_nth by simp
    ultimately show "puzzle2 ! j = puzzle0 ! j" by simp
  qed
  have "s \<or> (\<forall>j<81. k < j \<longrightarrow> puzzle2 ! j = puzzle0 ! j)"
  proof (cases s)
    case False
    with attempt_result(3)[OF g91 sk at] have "puzzle2 = puzzle1" by simp
    then show ?thesis using same p1 by simp
  qed simp
  then have "\<exists>k'<81. r = int k' div 9 \<and> c = int k' mod 9 \<and> puzzle0 ! k' = 0 \<and>
        (s \<or> (\<forall>j<81. k' < j \<longrightarrow> puzzle2 ! j = puzzle0 ! j))"
    using k by (intro exI[of _ k]) simp
  then show ?case
    using attempt_result(1)[OF g91 sk at] comp2 reach_return(3) same_pos by simp
next
  case (reach_invalid puzzle r c i solved puzzle1)
  then obtain k where k: "k < 81" "r = int k div 9" "c = int k mod 9" "puzzle0 ! k = 0"
    and same: "\<forall>j<81. k < j \<longrightarrow> puzzle ! j = puzzle0 ! j" by auto
  have ib: "inBounds puzzle r c" using k by (auto simp: inBounds_def)
  have idx: "nat (r * 9 + c) = k" unfolding k(2,3) by (rule pos_idx)
  have p1: "puzzle1 = puzzle[k := i]"
    using reach_invalid(4) by (simp add: set_at_eq[OF ib] idx)
  have g9p: "grid9 puzzle" and comp: "completes puzzle puzzle0" using reach_invalid(6) by simp_all
  have "completes puzzle1 puzzle0"
    using comp k(4) unfolding completes_nth p1 by (metis nth_list_update_neq)
  moreover have "grid9 puzzle1" using g9p p1 by (simp add: grid9_def)
  moreover have "\<exists>k'<81. r = int k' div 9 \<and> c = int k' mod 9 \<and> puzzle0 ! k' = 0 \<and>
        (solved \<or> (\<forall>j<81. k' < j \<longrightarrow> puzzle1 ! j = puzzle0 ! j))"
    using same p1 k by (intro exI[of _ k]) simp
  ultimately show ?case by simp
next
  case (reach_solved puzzle r c i solved)
  then show ?case by auto
qed

lemma attempt_total:
  assumes g9: "grid9 puzzle"
  shows "\<exists>solved s. attempt puzzle r c = Some (solved, s) \<and> grid9 s"
proof (cases "inBounds puzzle r c")
  case False
  then have "attempt puzzle r c = Some (cellValid puzzle 8 8, puzzle)"
    by (subst attempt.simps) (simp add: isValid_eq inBounds_def)
  then show ?thesis using g9 by simp
next
  case True
  define k where "k = nat (r * 9 + c)"
  from True have rc: "0 \<le> r" "r \<le> 8" "0 \<le> c" "c \<le> 8" by (simp_all add: inBounds_def)
  then have k: "k \<le> 81" "int k = r * 9 + c" by (simp_all add: k_def)
  have "int k div 9 = r" "int k mod 9 = c" unfolding k(2) using rc by simp_all
  then have e: "attempt puzzle r c = attempt puzzle (int k div 9) (int k mod 9)" by simp
  obtain solved s where o: "outcome puzzle (search (81 - k) puzzle) = (solved, s)"
    by (cases "outcome puzzle (search (81 - k) puzzle)")
  have "81 - (81 - k) = k" using k(1) by simp
  with attempt_search[OF g9, of "81 - k"] o
  have at: "attempt puzzle (int k div 9) (int k mod 9) = Some (solved, s)" by simp
  from attempt_result(1)[OF g9 k(1) at] at e show ?thesis by simp
qed

section \<open>What a true result of solve guarantees\<close>

text \<open>
  On every 9x9 grid a true result is completely filled and keeps the given clues. When
  the given clues are values of 1..9 with no duplicate in a row, column or sub-block,
  the result is a solved grid; without that the result repeats the clash of the clues.
\<close>

lemma solve_true_filled:
  assumes g9: "grid9 puzzle" and so: "solve puzzle = Some (True, s)"
  shows "grid9 s" "filled s" "completes s puzzle"
proof -
  from so g9 have se: "search 81 puzzle = Some s"
    by (auto simp: solve_search outcome_def split: option.splits)
  from search_fills[OF g9 _ se] have f: "fills 81 puzzle s" by simp
  show "grid9 s" using f g9 by (simp add: fills_def grid9_def)
  show "filled s" using f by (simp add: filled_nth fills_def)
  show "completes s puzzle" using f unfolding completes_nth fills_def by simp
qed

lemma solve_true_solved:
  "grid9 puzzle \<Longrightarrow> cluesInRange puzzle \<Longrightarrow> consistent puzzle \<Longrightarrow>
   solve puzzle = Some (True, s) \<Longrightarrow> filled s \<and> solvedGrid s"
  using search_true_solved[of puzzle s]
  by (auto simp: solve_search outcome_def split: option.splits)

section \<open>Conditions on concrete grids\<close>

lemma grid9_solved0: "grid9 solved0"
  by (simp add: grid9_def solved0_def)

lemma sub_consistent:
  assumes con: "consistent s" and sub: "completes s puzzle"
  shows "consistent puzzle"
  unfolding consistent_def
proof (intro ballI impI)
  fix r c assume rc: "r \<in> {0..8}" "c \<in> {0..8}" "cell puzzle r c \<noteq> 0"
  then have e: "cell s r c = cell puzzle r c" using sub by (simp add: completes_def)
  with rc con have v: "cellValid s r c" by (simp add: consistent_def)
  show "cellValid puzzle r c"
    unfolding cellValid_iff[OF rc(1,2)]
  proof (intro ballI impI)
    fix r' c' assume q: "r' \<in> {0..8}" "c' \<in> {0..8}" "sees r c r' c'"
    show "cell puzzle r' c' \<noteq> cell puzzle r c"
    proof (cases "cell puzzle r' c' = 0")
      case True then show ?thesis using rc(3) by simp
    next
      case False
      then have "cell s r' c' = cell puzzle r' c'" using sub q by (simp add: completes_def)
      moreover have "cell s r' c' \<noteq> cell s r c"
        using v q unfolding cellValid_iff[OF rc(1,2)] by blast
      ultimately show ?thesis using e by simp
    qed
  qed
qed

lemma all_cells_set:
  assumes "grid9 puzzle"
  shows "(\<forall>r\<in>{0..8}. \<forall>c\<in>{0..8}. P (cell puzzle r c)) \<longleftrightarrow> (\<forall>x\<in>set puzzle. P x)"
proof -
  have "(\<forall>r\<in>{0..8}. \<forall>c\<in>{0..8}. P (cell puzzle r c)) \<longleftrightarrow> (\<forall>j<81. P (puzzle ! j))"
    unfolding cell_def by (rule cells_all)
  also have "\<dots> \<longleftrightarrow> (\<forall>x\<in>set puzzle. P x)"
    using assms by (simp add: all_set_conv_all_nth grid9_def)
  finally show ?thesis .
qed

lemma filled_set: "grid9 puzzle \<Longrightarrow> filled puzzle \<longleftrightarrow> 0 \<notin> set puzzle"
  unfolding filled_def using all_cells_set[of puzzle "\<lambda>x. x \<noteq> 0"] by auto

lemma cluesInRange_set:
  "grid9 puzzle \<Longrightarrow> cluesInRange puzzle \<longleftrightarrow> (\<forall>x\<in>set puzzle. 0 \<le> x \<and> x \<le> 9)"
  unfolding cluesInRange_def
  using all_cells_set[of puzzle "\<lambda>x. x \<noteq> 0 \<longrightarrow> x \<in> {1..9}"] by auto

lemma completes_all2:
  assumes "grid9 s" "grid9 puzzle"
  shows "completes s puzzle \<longleftrightarrow> list_all2 (\<lambda>a b. b \<noteq> 0 \<longrightarrow> a = b) s puzzle"
  using assms unfolding completes_nth by (auto simp: list_all2_conv_all_nth grid9_def)

lemma solved0_consistent: "consistent solved0"
  by code_simp

lemma solved0_filled: "filled solved0"
  by (simp add: filled_set[OF grid9_solved0]) (simp add: solved0_def)

lemma solved0_range: "cluesInRange solved0"
  by (simp add: cluesInRange_set[OF grid9_solved0]) (simp add: solved0_def)

lemma solved0_solved: "solvedGrid solved0"
  by (intro filled_range_valid_solved solved0_filled solved0_range solved0_consistent)

lemma easy0_grid9: "grid9 easy0"
  by (simp add: grid9_def easy0_def)

lemma easy0_completes: "completes solved0 easy0"
  by (simp add: completes_all2[OF grid9_solved0 easy0_grid9]) (simp add: solved0_def easy0_def)

lemma easy0_range: "cluesInRange easy0"
  by (simp add: cluesInRange_set[OF easy0_grid9]) (simp add: easy0_def)

lemma easy0_consistent: "consistent easy0"
  by (rule sub_consistent[OF solved0_consistent easy0_completes])

lemma easy0_solve: "solve easy0 = Some (True, solved0)"
  by code_simp

lemma two0_grid9: "grid9 two0"
  by (simp add: grid9_def two0_def)

lemma two0_completes: "completes solved0 two0"
  by (simp add: completes_all2[OF grid9_solved0 two0_grid9]) (simp add: solved0_def two0_def)

lemma two0_solve: "solve two0 = Some (True, two0_first)"
  by code_simp

lemma set_at_00: "set_at puzzle 0 0 v = Some (puzzle[0 := v])"
  by (simp add: set_at_def inBounds_def)

lemma easy0_reach: "reach easy0 (Call (easy0[0 := 5]) 0 1)"
proof -
  have r0: "reach easy0 (Call easy0 0 0)" by (rule reach_solve)
  have r1: "reach easy0 (Loop easy0 0 0 1 False)"
    by (rule reach_unknown[OF r0]) (simp_all add: inBounds_def get_def easy0_def)
  have "reach easy0 (Loop (easy0[0 := 1]) 0 0 (1 + 1) False)"
  proof (rule reach_invalid[OF r1])
    show "isValid (easy0[0 := 1]) 0 0 = Some False" by code_simp
  qed (simp_all add: set_at_00)
  then have r2: "reach easy0 (Loop (easy0[0 := 1]) 0 0 2 False)" by simp
  have "reach easy0 (Loop (easy0[0 := 2]) 0 0 (2 + 1) False)"
  proof (rule reach_invalid[OF r2])
    show "isValid (easy0[0 := 2]) 0 0 = Some False" by code_simp
  qed (simp_all add: set_at_00)
  then have r3: "reach easy0 (Loop (easy0[0 := 2]) 0 0 3 False)" by simp
  have "reach easy0 (Loop (easy0[0 := 3]) 0 0 (3 + 1) False)"
  proof (rule reach_invalid[OF r3])
    show "isValid (easy0[0 := 3]) 0 0 = Some False" by code_simp
  qed (simp_all add: set_at_00)
  then have r4: "reach easy0 (Loop (easy0[0 := 3]) 0 0 4 False)" by simp
  have "reach easy0 (Loop (easy0[0 := 4]) 0 0 (4 + 1) False)"
  proof (rule reach_invalid[OF r4])
    show "isValid (easy0[0 := 4]) 0 0 = Some False" by code_simp
  qed (simp_all add: set_at_00)
  then have r5: "reach easy0 (Loop (easy0[0 := 4]) 0 0 5 False)" by simp
  show ?thesis
  proof (rule reach_descend[OF r5])
    show "isValid (easy0[0 := 5]) 0 0 = Some True" by code_simp
    show "nextPos (0, 0) = (0, 1)" by (simp add: nextPos_def)
  qed (simp_all add: set_at_00)
qed

section \<open>Properties of solve and attempt\<close>

text \<open>
  C1. The claim is that whenever solve returns true the resulting grid is completely
  filled and every row, column and 3x3 sub-block contains each value of 1..9 exactly
  once. On the grid \<open>clash0\<close>, whose clues hold 6 at (4, 2) and at (4, 4), solve returns
  true and leaves a grid whose row 4 holds 6 twice: the clue cells are advanced over
  without validation, and only the cell the search fills and the cell (8, 8) are checked.
\<close>

theorem C1_clashing_clues_accepted:
  "grid9 clash0 \<and> solve clash0 = Some (True, clash0_result) \<and>
   cell clash0_result 4 2 = 6 \<and> cell clash0_result 4 4 = 6"
proof -
  have "grid9 clash0" by (simp add: grid9_def clash0_def)
  moreover have "solve clash0 = Some (True, clash0_result)" by code_simp
  moreover have "cell clash0_result 4 2 = 6" by (simp add: cell_def clash0_result_def)
  moreover have "cell clash0_result 4 4 = 6" by (simp add: cell_def clash0_result_def)
  ultimately show ?thesis by simp
qed

text \<open>
  C2. The claim is that solve returns false on a grid with no empty cell and a rule
  violation. The grid \<open>rowclash0\<close> has no empty cell and holds the same value at (0, 0)
  and (0, 1), and solve returns true on it: filled cells are skipped without validation
  and only the cell (8, 8) is checked at the end.
\<close>

theorem C2_filled_violation_accepted:
  "grid9 rowclash0 \<and> 0 \<notin> set rowclash0 \<and> cell rowclash0 0 0 = cell rowclash0 0 1 \<and>
   solve rowclash0 = Some (True, rowclash0)"
proof -
  have "grid9 rowclash0" by (simp add: grid9_def rowclash0_def)
  moreover have "0 \<notin> set rowclash0" by (simp add: rowclash0_def)
  moreover have "cell rowclash0 0 0 = cell rowclash0 0 1" by (simp add: cell_def rowclash0_def)
  moreover have "solve rowclash0 = Some (True, rowclash0)" by code_simp
  ultimately show ?thesis by simp
qed

text \<open>
  C3. If solve returns false, the grid after the call is the grid before the call: every
  tentative assignment has been retracted.
\<close>

theorem C3_failure_restores:
  "grid9 puzzle \<Longrightarrow> solve puzzle = Some (False, s) \<Longrightarrow> s = puzzle"
  by (auto simp: solve_search outcome_def split: option.splits)

theorem C3_witness:
  "grid9 unsolvable0 \<and> solve unsolvable0 = Some (False, unsolvable0)"
proof -
  have g: "grid9 unsolvable0" by (simp add: grid9_def unsolvable0_def)
  have r: "solve unsolvable0 = Some (False, unsolvable0)" by code_simp
  from C3_failure_restores[OF g r] g r show ?thesis by simp
qed

text \<open>
  C4. At a position out of bounds, attempt returns true if and only if the final cell
  (8, 8) has no duplicate in its row, its column or its sub-block, and it leaves the
  grid as it is.
\<close>

theorem C4_attempt_out_of_bounds:
  "grid9 puzzle \<Longrightarrow> \<not> inBounds puzzle r c \<Longrightarrow>
   attempt puzzle r c = Some (cellValid puzzle 8 8, puzzle)"
  by (subst attempt.simps) (simp add: isValid_eq inBounds_def)

theorem C4_witness:
  "grid9 solved0 \<and> \<not> inBounds solved0 9 0 \<and>
   attempt solved0 9 0 = Some (cellValid solved0 8 8, solved0)"
proof -
  have o: "\<not> inBounds solved0 9 0" by (simp add: inBounds_def)
  from C4_attempt_out_of_bounds[OF grid9_solved0 o] grid9_solved0 o show ?thesis by simp
qed

text \<open>
  C5. For an in-bounds cell (r, c), isDuplSubGrid returns true if and only if some cell
  of the same 3x3 sub-block in another row and another column holds the value of
  (r, c); the cells of the sub-block in row r or in column c are not compared.
\<close>

theorem C5_isDuplSubGrid:
  "grid9 puzzle \<Longrightarrow> inBounds puzzle r c \<Longrightarrow>
   isDuplSubGrid puzzle r c =
     Some (\<exists>row\<in>blockOf r. \<exists>col\<in>blockOf c.
             row \<noteq> r \<and> col \<noteq> c \<and> cell puzzle row col = cell puzzle r c)"
  by (simp add: isDuplSubGrid_eq diagDupl_def)

theorem C5_witness:
  "grid9 diag0 \<and> inBounds diag0 0 0 \<and>
   isDuplSubGrid diag0 0 0 =
     Some (\<exists>row\<in>blockOf 0. \<exists>col\<in>blockOf 0.
             row \<noteq> 0 \<and> col \<noteq> 0 \<and> cell diag0 row col = cell diag0 0 0)"
proof -
  have g: "grid9 diag0" by (simp add: grid9_def diag0_def)
  have i: "inBounds diag0 0 0" by (simp add: inBounds_def)
  from C5_isDuplSubGrid[OF g i] g i show ?thesis by simp
qed

text \<open>
  C6. Every cell that is non-zero in the input holds the same value after solve returns,
  whether solve returns true or false; and it holds that value at every call of attempt
  and at every head of the candidate loop during the run, so the search never writes
  to a given clue.
\<close>

theorem C6_clues_kept:
  "grid9 puzzle \<Longrightarrow>
   (\<forall>solved s. solve puzzle = Some (solved, s) \<longrightarrow>
      (\<forall>r\<in>{0..8}. \<forall>c\<in>{0..8}. cell puzzle r c \<noteq> 0 \<longrightarrow> cell s r c = cell puzzle r c)) \<and>
   (\<forall>p r c. reach puzzle (Call p r c) \<longrightarrow>
      (\<forall>r'\<in>{0..8}. \<forall>c'\<in>{0..8}. cell puzzle r' c' \<noteq> 0 \<longrightarrow> cell p r' c' = cell puzzle r' c')) \<and>
   (\<forall>p r c i solved. reach puzzle (Loop p r c i solved) \<longrightarrow>
      (\<forall>r'\<in>{0..8}. \<forall>c'\<in>{0..8}. cell puzzle r' c' \<noteq> 0 \<longrightarrow> cell p r' c' = cell puzzle r' c'))"
proof -
  assume g9: "grid9 puzzle"
  have "completes s puzzle" if "solve puzzle = Some (solved, s)" for solved s
    using attempt_keeps[OF g9, of 0 solved s] that by (simp add: solve_def)
  moreover have "completes p puzzle" if "reach puzzle (Call p r c)" for p r c
    using reach_frameKeeps[OF g9 that] by simp
  moreover have "completes p puzzle" if "reach puzzle (Loop p r c i solved)" for p r c i solved
    using reach_frameKeeps[OF g9 that] by simp
  ultimately show ?thesis unfolding completes_def by blast
qed

theorem C6_witness:
  "grid9 easy0 \<and> solve easy0 = Some (True, solved0) \<and> completes solved0 easy0 \<and>
   reach easy0 (Call (easy0[0 := 5]) 0 1) \<and> completes (easy0[0 := 5]) easy0"
  using C6_clues_kept[OF easy0_grid9] easy0_grid9 easy0_solve easy0_reach
  unfolding completes_def by blast

text \<open>
  C7. solve is a function of the input grid; and whenever the input has a valid
  completion \<open>S\<close>, solve returns true with a valid completion that is lexicographically
  no larger than \<open>S\<close> in row-major cell order: the successful output is the smallest
  valid completion.
\<close>

theorem C7_first_completion:
  "grid9 puzzle \<Longrightarrow> grid9 S \<Longrightarrow> solvedGrid S \<Longrightarrow> completes S puzzle \<Longrightarrow>
   (\<forall>p. p = puzzle \<longrightarrow> solve p = solve puzzle) \<and>
   (\<exists>s. solve puzzle = Some (True, s) \<and> solvedGrid s \<and> completes s puzzle \<and> lexLe s S)"
proof -
  assume g9: "grid9 puzzle" and S9: "grid9 S" and sol: "solvedGrid S" and comp: "completes S puzzle"
  have Scon: "consistent S" and Sfill: "filled S" and Sclue: "cluesInRange S"
    using solved_props[OF sol] by simp_all
  have Srange: "\<forall>j<81. S ! j \<in> {1..9}"
    using Sfill Sclue unfolding filled_nth cluesInRange_nth by blast
  have agree: "\<forall>j<81. j < 81 - 81 \<or> puzzle ! j \<noteq> 0 \<longrightarrow> S ! j = puzzle ! j"
    using comp unfolding completes_nth by simp
  from search_complete[OF S9 Scon Srange g9 _ agree]
  obtain s where s: "search 81 puzzle = Some s" "lexLe s S" by auto
  have con: "consistent puzzle" by (rule sub_consistent[OF Scon comp])
  have rg: "cluesInRange puzzle"
    unfolding cluesInRange_nth
  proof (intro allI impI)
    fix j :: nat assume j: "j < 81" "puzzle ! j \<noteq> 0"
    then have "S ! j = puzzle ! j" using comp unfolding completes_nth by blast
    with Srange j(1) show "puzzle ! j \<in> {1..9}" by force
  qed
  have "solvedGrid s" by (rule search_true_solved(3)[OF g9 rg con s(1)])
  moreover have "completes s puzzle"
    using search_fills[OF g9 _ s(1)] unfolding completes_nth fills_def by simp
  moreover have "solve puzzle = Some (True, s)"
    using s(1) g9 by (simp add: solve_search outcome_def)
  ultimately show ?thesis using s(2) by blast
qed

theorem C7_witness:
  "grid9 two0 \<and> grid9 solved0 \<and> solvedGrid solved0 \<and> completes solved0 two0 \<and>
   solve two0 = Some (True, two0_first) \<and> two0_first \<noteq> solved0 \<and>
   solvedGrid two0_first \<and> completes two0_first two0 \<and> lexLe two0_first solved0"
proof -
  have "two0_first \<noteq> solved0" by (simp add: two0_first_def solved0_def)
  then show ?thesis
    using C7_first_completion[OF two0_grid9 grid9_solved0 solved0_solved two0_completes]
      two0_grid9 grid9_solved0 solved0_solved two0_completes two0_solve by simp
qed

text \<open>
  C8. On a completely filled, rule-valid grid solve returns true and leaves the grid
  unchanged; and solve run again on the grid left by a successful solve returns true
  with the grid unchanged.
\<close>

theorem C8_solved_grid_fixed:
  "grid9 puzzle \<Longrightarrow>
   (filled puzzle \<and> solvedGrid puzzle \<longrightarrow> solve puzzle = Some (True, puzzle)) \<and>
   (\<forall>s. solve puzzle = Some (True, s) \<longrightarrow> solve s = Some (True, s))"
proof
  assume g9: "grid9 puzzle"
  show "filled puzzle \<and> solvedGrid puzzle \<longrightarrow> solve puzzle = Some (True, puzzle)"
  proof
    assume a: "filled puzzle \<and> solvedGrid puzzle"
    then have "cellValid puzzle 8 8" by (intro solved_cellValid) simp_all
    moreover have "\<forall>j<81. puzzle ! j \<noteq> 0" using a by (simp add: filled_nth)
    ultimately show "solve puzzle = Some (True, puzzle)"
      using search_filled[of puzzle 81] g9 by (simp add: solve_search outcome_def)
  qed
  show "\<forall>s. solve puzzle = Some (True, s) \<longrightarrow> solve s = Some (True, s)"
  proof (intro allI impI)
    fix s assume "solve puzzle = Some (True, s)"
    then have "search 81 puzzle = Some s"
      using g9 by (auto simp: solve_search outcome_def split: option.splits)
    from search_fills[OF g9 _ this] have f: "fills 81 puzzle s" by simp
    then have "grid9 s" "\<forall>j<81. s ! j \<noteq> 0" "cellValid s 8 8"
      using g9 by (simp_all add: fills_def grid9_def)
    then show "solve s = Some (True, s)"
      using search_filled[of s 81] by (simp add: solve_search outcome_def)
  qed
qed

theorem C8_witness:
  "grid9 solved0 \<and> filled solved0 \<and> solvedGrid solved0 \<and> solve solved0 = Some (True, solved0) \<and>
   grid9 easy0 \<and> solve easy0 = Some (True, solved0)"
  using C8_solved_grid_fixed[OF grid9_solved0] C8_solved_grid_fixed[OF easy0_grid9]
    grid9_solved0 easy0_grid9 solved0_filled solved0_solved easy0_solve by simp

text \<open>
  C9, as amended. If the given clues of the input grid are mutually consistent, then at
  every call attempt(puzzle, r, c) made in a run of solve every filled cell of the grid
  has no duplicate in its row, column or sub-block.
\<close>

theorem C9_calls_consistent:
  "grid9 puzzle0 \<Longrightarrow> consistent puzzle0 \<Longrightarrow> reach puzzle0 (Call puzzle r c) \<Longrightarrow>
   consistent puzzle"
  using reach_frameOk[of puzzle0 "Call puzzle r c"] by simp

theorem C9_witness:
  "grid9 easy0 \<and> consistent easy0 \<and> reach easy0 (Call (easy0[0 := 5]) 0 1) \<and>
   consistent (easy0[0 := 5])"
  using C9_calls_consistent[OF easy0_grid9 easy0_consistent easy0_reach]
    easy0_grid9 easy0_consistent easy0_reach by simp

text \<open>
  C9 as stated, for any input grid, fails: on \<open>rowclash0\<close> the recursive call
  attempt(puzzle, 0, 1) is made on a grid whose row 0 holds 3 twice.
\<close>

theorem C9_counterexample:
  "grid9 rowclash0 \<and> reach rowclash0 (Call rowclash0 0 1) \<and> \<not> consistent rowclash0"
proof -
  have g: "grid9 rowclash0" by (simp add: grid9_def rowclash0_def)
  have "reach rowclash0 (Call rowclash0 0 1)"
  proof (rule reach_given[OF reach_solve])
    show "inBounds rowclash0 0 0" by (simp add: inBounds_def)
    show "get rowclash0 0 0 = Some 3" by (simp add: get_def inBounds_def rowclash0_def)
    show "(3::int) \<noteq> 0" by simp
    show "nextPos (0, 0) = (0, 1)" by (simp add: nextPos_def)
  qed
  moreover have "\<not> consistent rowclash0"
  proof
    assume "consistent rowclash0"
    moreover have "cell rowclash0 0 0 \<noteq> 0" by (simp add: cell_def rowclash0_def)
    ultimately have "cellValid rowclash0 0 0" by (simp add: consistent_def)
    moreover have "\<not> cellValid rowclash0 0 0" by code_simp
    ultimately show False by simp
  qed
  ultimately show ?thesis using g by simp
qed

text \<open>
  C10. For every 9x9 grid, no element access in the call tree of solve is out of bounds:
  solve returns a result, and so does attempt at every position and every duplicate
  check at every in-bounds cell. An access out of bounds would make the result \<open>None\<close>.
\<close>

theorem C10_solve_in_bounds:
  "grid9 puzzle \<Longrightarrow>
   (\<exists>solved s. solve puzzle = Some (solved, s) \<and> grid9 s) \<and>
   (\<forall>r c. \<exists>solved s. attempt puzzle r c = Some (solved, s) \<and> grid9 s) \<and>
   (\<forall>r c. inBounds puzzle r c \<longrightarrow>
      isValid puzzle r c \<noteq> None \<and> isDuplRow puzzle r c \<noteq> None \<and>
      isDuplCol puzzle r c \<noteq> None \<and> isDuplSubGrid puzzle r c \<noteq> None)"
  using attempt_total[of puzzle]
  by (simp add: solve_def isValid_eq isDuplRow_eq isDuplCol_eq isDuplSubGrid_eq)

theorem C10_witness:
  "grid9 easy0 \<and> (\<exists>solved s. solve easy0 = Some (solved, s) \<and> grid9 s) \<and>
   (\<exists>solved s. attempt easy0 4 4 = Some (solved, s) \<and> grid9 s) \<and>
   inBounds easy0 4 4 \<and> isValid easy0 4 4 \<noteq> None \<and> isDuplRow easy0 4 4 \<noteq> None \<and>
   isDuplCol easy0 4 4 \<noteq> None \<and> isDuplSubGrid easy0 4 4 \<noteq> None"
proof -
  have i: "inBounds easy0 4 4" by (simp add: inBounds_def)
  from C10_solve_in_bounds[OF easy0_grid9] i easy0_grid9 show ?thesis by blast
qed

end
